theory Spec2Isabelle
  imports Main "HOL-Library.Word"
begin

section \<open>Buffers and JavaScript errors\<close>

text \<open>
  A Node \<open>Buffer\<close> is a fixed-length sequence of bytes. The JavaScript exceptions the
  modelled code can raise are values of \<open>js_error\<close>.
\<close>

type_synonym buffer = "8 word list"

datatype js_error = TypeError | RangeError | ReferenceError | Error string

definition Buffer_alloc :: "nat \<Rightarrow> buffer" where
  "Buffer_alloc n = replicate n 0"

text \<open>
  The in-place primitives of the code (\<open>randombytes_buf\<close>, \<open>crypto_secretbox_easy\<close>,
  \<open>crypto_secretbox_open_easy\<close>) write into a buffer the caller allocated:
  \<open>buffer_write buf bytes\<close> is that buffer after \<open>bytes\<close> were written from offset 0.
  Its length never changes.
\<close>

definition buffer_write :: "buffer \<Rightarrow> buffer \<Rightarrow> buffer" where
  "buffer_write buf bytes = take (length buf) (bytes @ drop (length bytes) buf)"

text \<open>
  \<open>Buffer.from(s, 'hex')\<close> as Node documents it: two hexadecimal digits per byte, decoding
  stops at the first pair that is not two hexadecimal digits, and a trailing single
  character is dropped. (The browser's buffer module gives the same bytes for a string
  of an even number of hexadecimal digits.)
\<close>

definition hex_digit :: "char \<Rightarrow> nat option" where
  "hex_digit c =
     (let n = of_char c :: nat in
      if 48 \<le> n \<and> n \<le> 57 then Some (n - 48)
      else if 97 \<le> n \<and> n \<le> 102 then Some (n - 87)
      else if 65 \<le> n \<and> n \<le> 70 then Some (n - 55)
      else None)"

fun Buffer_from_hex :: "string \<Rightarrow> buffer" where
  "Buffer_from_hex (a # b # rest) =
     (case (hex_digit a, hex_digit b) of
        (Some h, Some l) \<Rightarrow> of_nat (16 * h + l) # Buffer_from_hex rest
      | _ \<Rightarrow> [])"
| "Buffer_from_hex _ = []"

section \<open>The browser node (browser/index.js)\<close>

subsection \<open>State\<close>

text \<open>
  An ephemeral message as \<open>view.on('requestAuthorisation')\<close> builds it:
  \<open>{nodeName, timestamp, action, readKey}\<close>. The timestamp is a \<open>Date\<close>, which
  \<open>JSON.stringify\<close> writes as a string; it is kept as that string.
\<close>

record message =
  nodeName :: string
  timestamp :: string
  action :: string
  readKey :: string

text \<open>
  \<open>createMessageHash\<close> is
  \<open>crypto.createHash('sha256').update(JSON.stringify(message)).digest('hex')\<close>. The two
  library functions are parameters: \<open>stringify\<close> for \<open>JSON.stringify\<close> and \<open>sha256\<close>
  for the hexadecimal SHA-256 digest.
\<close>

definition createMessageHash :: "(message \<Rightarrow> string) \<Rightarrow> (string \<Rightarrow> string) \<Rightarrow> message \<Rightarrow> string" where
  "createMessageHash stringify sha256 m = sha256 (stringify m)"

text \<open>
  The state of the browser node that the ephemeral-message code reads and writes:
  \<^item> \<open>ephemeralMessageHashes\<close>: the module-level object used as the seen-set (a key is
    present when looking it up does not give \<open>undefined\<close>; the keys are digests);
  \<^item> \<open>lastRequest\<close>: \<open>model.lastRequest\<close>;
  \<^item> \<open>authorisationRequest\<close>: the node name shown by \<open>view.showAuthorisationRequest\<close>,
    \<open>None\<close> while the request panel is hidden;
  \<^item> \<open>modelNodeName\<close>: \<open>model.nodeName\<close>;
  \<^item> \<open>localKey\<close>: \<open>model.db.local.key.toString('hex')\<close>, \<open>None\<close> while \<open>model.db\<close>
    is not set (before the database is ready).
\<close>

record node =
  ephemeralMessageHashes :: "string \<rightharpoonup> bool"
  lastRequest :: "message option"
  authorisationRequest :: "string option"
  modelNodeName :: string
  localKey :: "string option"

subsection \<open>The \<open>message\<close> listener of the secure ephemeral messaging channel\<close>

text \<open>
  What the listener did with a message: it returned at the seen-set check
  (\<open>Ignored\<close>), it asked the database whether the local writer is authorised
  (\<open>db.authorized(db.local.key, callback)\<close>, the callback runs later), or it found an
  action other than \<open>'authorise'\<close>.
\<close>

datatype outcome = Ignored | CheckingSelfAuthorisation message | UnknownRequest

definition on_message ::
  "(message \<Rightarrow> string) \<Rightarrow> (string \<Rightarrow> string) \<Rightarrow> node \<Rightarrow> message \<Rightarrow> node \<times> outcome" where
  "on_message stringify sha256 st request =
     (let messageHash = createMessageHash stringify sha256 request in
      if ephemeralMessageHashes st messageHash \<noteq> None then (st, Ignored)
      else
        let st' = st\<lparr>ephemeralMessageHashes := (ephemeralMessageHashes st)(messageHash \<mapsto> True)\<rparr> in
        if action request = ''authorise'' then (st', CheckingSelfAuthorisation request)
        else (st', UnknownRequest))"

text \<open>
  The callback of \<open>db.authorized\<close>: called with an error, or with the answer.
\<close>

datatype authorized_result = AuthorizedError | Authorized bool

definition authorized_callback :: "node \<Rightarrow> message \<Rightarrow> authorized_result \<Rightarrow> node" where
  "authorized_callback st request res =
     (case res of
        AuthorizedError \<Rightarrow> st
      | Authorized isAuthorised \<Rightarrow>
          if isAuthorised
          then st\<lparr>lastRequest := Some request, authorisationRequest := Some (nodeName request)\<rparr>
          else st)"

subsection \<open>The \<open>received-bad-message\<close> listener\<close>

text \<open>
  The listener writes to the console and nothing else.
\<close>

definition on_received_bad_message :: "node \<Rightarrow> node" where
  "on_received_bad_message st = st"

subsection \<open>The view's listeners\<close>

text \<open>
  \<open>view.on('authorise')\<close> reads \<open>model.lastRequest.readKey\<close> and calls
  \<open>model.db.authorize\<close> with that key as a buffer; the result is the key passed to
  \<open>authorize\<close>, or the \<open>TypeError\<close> of reading a property of \<open>undefined\<close>.
\<close>

definition on_authorise :: "node \<Rightarrow> js_error + buffer" where
  "on_authorise st =
     (case lastRequest st of
        None \<Rightarrow> Inl TypeError
      | Some request \<Rightarrow>
          (case localKey st of
             None \<Rightarrow> Inl TypeError
           | Some _ \<Rightarrow> Inr (Buffer_from_hex (readKey request))))"

text \<open>
  \<open>view.on('requestAuthorisation')\<close> builds the message, broadcasts it and then marks
  its hash as seen. \<open>now\<close> is \<open>new Date()\<close> as \<open>JSON.stringify\<close> writes it. The result
  is the message that was broadcast.
\<close>

definition on_requestAuthorisation ::
  "(message \<Rightarrow> string) \<Rightarrow> (string \<Rightarrow> string) \<Rightarrow> node \<Rightarrow> string \<Rightarrow> node \<times> (js_error + message)" where
  "on_requestAuthorisation stringify sha256 st now =
     (case localKey st of
        None \<Rightarrow> (st, Inl TypeError)
      | Some key \<Rightarrow>
          let m = \<lparr>nodeName = modelNodeName st, timestamp = now, action = ''authorise'', readKey = key\<rparr>;
              messageHash = createMessageHash stringify sha256 m
          in (st\<lparr>ephemeralMessageHashes := (ephemeralMessageHashes st)(messageHash \<mapsto> True)\<rparr>, Inr m))"

subsection \<open>Runs of the node\<close>

text \<open>
  Everything that happens on the node's single thread and touches this state, one
  event at a time: a message arrives from the channel, the channel reports a bad
  message, a \<open>db.authorized\<close> callback runs, the person clicks Authorise, the person
  clicks Request authorisation.
\<close>

datatype event =
  Message message
| BadMessage
| AuthorizedCallback message authorized_result
| Authorise
| RequestAuthorisation string

fun step :: "(message \<Rightarrow> string) \<Rightarrow> (string \<Rightarrow> string) \<Rightarrow> node \<Rightarrow> event \<Rightarrow> node" where
  "step js sha st (Message m) = fst (on_message js sha st m)"
| "step js sha st BadMessage = on_received_bad_message st"
| "step js sha st (AuthorizedCallback m res) = authorized_callback st m res"
| "step js sha st Authorise = st"
| "step js sha st (RequestAuthorisation now) = fst (on_requestAuthorisation js sha st now)"

fun run :: "(message \<Rightarrow> string) \<Rightarrow> (string \<Rightarrow> string) \<Rightarrow> node \<Rightarrow> event list \<Rightarrow> node" where
  "run js sha st [] = st"
| "run js sha st (e # es) = run js sha (step js sha st e) es"

text \<open>
  How many of the arriving messages with content hash \<open>h\<close> got past the seen-set
  check, over a run.
\<close>

fun handled :: "(message \<Rightarrow> string) \<Rightarrow> (string \<Rightarrow> string) \<Rightarrow> node \<Rightarrow> event list \<Rightarrow> string \<Rightarrow> nat" where
  "handled js sha st [] h = 0"
| "handled js sha st (Message m # es) h =
     (if createMessageHash js sha m = h \<and> snd (on_message js sha st m) \<noteq> Ignored then 1 else 0)
     + handled js sha (step js sha st (Message m)) es h"
| "handled js sha st (e # es) h = handled js sha (step js sha st e) es h"

text \<open>The keys authorised over a run: one for every Authorise click that reached \<open>db.authorize\<close>.\<close>

fun authorisations :: "(message \<Rightarrow> string) \<Rightarrow> (string \<Rightarrow> string) \<Rightarrow> node \<Rightarrow> event list \<Rightarrow> buffer list" where
  "authorisations js sha st [] = []"
| "authorisations js sha st (Authorise # es) =
     (case on_authorise st of Inl _ \<Rightarrow> [] | Inr key \<Rightarrow> [key])
     @ authorisations js sha (step js sha st Authorise) es"
| "authorisations js sha st (e # es) = authorisations js sha (step js sha st e) es"

section \<open>The secure ephemeral messaging channel\<close>

text \<open>
  Modelled from the spec: the receive path of \<open>SecureEphemeralMessagingChannel\<close> (the
  package \<open>@hypha/secure-ephemeral-messaging-channel\<close>, whose code is not among the
  sources; only its construction and its listeners are). Section 4.5 of the
  specification: a node that holds the symmetric key decrypts a received ciphertext;
  on an authentication failure it emits an observable bad-message event and does not
  throw; on success the message is handed on. A node without the key only
  re-broadcasts the raw ciphertext it received on one session to all other live
  sessions, with no decryption attempt and no deduplication.

  In the code the listeners of these events are \<open>on('message')\<close>,
  \<open>on('received-bad-message')\<close> (browser/index.js) and \<open>on('relay')\<close>
  (always-on/index.js); the seen-set check is in the \<open>message\<close> listener, and
  \<open>relay\<close> is the event a node without the key emits for a frame it forwards.

  \<open>channel_decrypt\<close> stands for the channel's authenticated decryption, \<open>None\<close> on failure;
  \<open>live\<close> are the live sessions of the database and \<open>sender\<close> the one the frame
  came in on. The result is the event emitted and the frames sent out.
\<close>

datatype ('c, 'm) channel_event = MessageEvent 'm | ReceivedBadMessage | RelayEvent 'c

definition channel_receive ::
  "'k option \<Rightarrow> ('k \<Rightarrow> 'c \<Rightarrow> 'm option) \<Rightarrow> 's list \<Rightarrow> 's \<Rightarrow> 'c \<Rightarrow> ('c, 'm) channel_event \<times> ('s \<times> 'c) list" where
  "channel_receive secretKey channel_decrypt live sender ciphertext =
     (case secretKey of
        None \<Rightarrow> (RelayEvent ciphertext, map (\<lambda>s. (s, ciphertext)) (filter (\<lambda>s. s \<noteq> sender) live))
      | Some k \<Rightarrow>
          (case channel_decrypt k ciphertext of
             None \<Rightarrow> (ReceivedBadMessage, [])
           | Some m \<Rightarrow> (MessageEvent m, [])))"

text \<open>
  A ciphertext frame arriving at the browser node, whose channel was constructed with
  the secret key: the channel's event goes to the listener registered for it. The
  second component is what the \<open>message\<close> listener did, \<open>None\<close> when it was not called.
\<close>

definition browser_receive ::
  "(message \<Rightarrow> string) \<Rightarrow> (string \<Rightarrow> string) \<Rightarrow> 'k \<Rightarrow> ('k \<Rightarrow> 'c \<Rightarrow> message option) \<Rightarrow>
   's list \<Rightarrow> node \<Rightarrow> 's \<Rightarrow> 'c \<Rightarrow> node \<times> outcome option" where
  "browser_receive js sha secretKey channel_decrypt live st sender ciphertext =
     (case fst (channel_receive (Some secretKey) channel_decrypt live sender ciphertext) of
        MessageEvent m \<Rightarrow> (case on_message js sha st m of (st', out) \<Rightarrow> (st', Some out))
      | ReceivedBadMessage \<Rightarrow> (on_received_bad_message st, None)
      | RelayEvent c \<Rightarrow> (st, None))"

section \<open>The always-on node (always-on/index.js)\<close>

text \<open>
  \<open>settings.readKey\<close> is a string or \<open>null\<close> (\<open>None\<close>). The settings a new
  installation starts from hold the empty string.
\<close>

record settings =
  settingsReadKey :: "string option"

definition defaultSettings :: settings where
  "defaultSettings = \<lparr>settingsReadKey = Some []\<rparr>"

text \<open>
  The state of the always-on node: the settings in memory, the settings file as
  \<open>persistSettings\<close> last wrote it, and the keys of \<open>hyperdbs\<close>. The node keeps no
  seen-set and registers no \<open>message\<close> listener.
\<close>

record always_on =
  settings :: settings
  settingsFile :: settings
  hyperdbs :: "string list"

definition persistSettings :: "always_on \<Rightarrow> always_on" where
  "persistSettings st = st\<lparr>settingsFile := settings st\<rparr>"

text \<open>
  The HTTPS middleware: \<open>Some (content_type, body)\<close> when it ended the response with
  that \<open>Content-Type\<close> header and body, \<open>None\<close> when it called \<open>next()\<close>.
  \<open>response.end(null)\<close> sends no body.
\<close>

definition response_end :: "string option \<Rightarrow> string" where
  "response_end chunk = (case chunk of None \<Rightarrow> [] | Some s \<Rightarrow> s)"

definition middleware :: "always_on \<Rightarrow> string \<Rightarrow> (string \<times> string) option" where
  "middleware st url =
     (if url = ''/.well-known/dat''
      then Some (''text/plain'', response_end (settingsReadKey (settings st)))
      else None)"

text \<open>
  \<open>getReadKeyFromDatDNS\<close> of the browser node, given the body the request resolved to:
  \<open>None\<close> is \<open>null\<close>.
\<close>

definition getReadKeyFromDatDNS :: "string \<Rightarrow> string option" where
  "getReadKeyFromDatDNS response = (if response = [] then None else Some response)"

text \<open>
  \<open>hyperdbs\<close> is a plain object, and the code tests \<open>hyperdbs[readKey] !== undefined\<close>:
  besides the keys stored in it, the test succeeds for the names every object
  inherits from \<open>Object.prototype\<close>.
\<close>

definition Object_prototype_properties :: "string list" where
  "Object_prototype_properties =
     [''constructor'', ''__proto__'', ''hasOwnProperty'', ''isPrototypeOf'',
      ''propertyIsEnumerable'', ''toLocaleString'', ''toString'', ''valueOf'',
      ''__defineGetter__'', ''__defineSetter__'', ''__lookupGetter__'', ''__lookupSetter__'']"

text \<open>
  \<open>replicate(websocket, readKey)\<close>, the part that runs before it returns. When
  \<open>hyperdbs[readKey]\<close> is not \<open>undefined\<close> it reads the identifier \<open>webSocket\<close>, which
  is not bound there (the parameter is \<open>websocket\<close>): a \<open>ReferenceError\<close>. Otherwise it
  creates the database, records it in \<open>hyperdbs\<close>, adds it to the channel and
  registers listeners.
\<close>

definition replicate_db :: "always_on \<Rightarrow> string \<Rightarrow> js_error + always_on" where
  "replicate_db st k =
     (if k \<in> set (hyperdbs st) \<or> k \<in> set Object_prototype_properties then Inl ReferenceError
      else Inr (st\<lparr>hyperdbs := k # hyperdbs st\<rparr>))"

text \<open>
  The web socket route \<open>/sign-up/:readKey\<close>. What it does to the web socket is the
  list of \<open>ws_action\<close>s.
\<close>

datatype ws_action = Send_error string | Close

definition sign_up :: "always_on \<Rightarrow> string \<Rightarrow> js_error + (always_on \<times> ws_action list)" where
  "sign_up st k =
     (if settingsReadKey (settings st) \<noteq> None
      then Inr (st, [Send_error ''Hypha already exists.'', Close])
      else
        (case replicate_db st k of
           Inl e \<Rightarrow> Inl e
         | Inr st' \<Rightarrow>
             Inr (persistSettings (st'\<lparr>settings := (settings st')\<lparr>settingsReadKey := Some k\<rparr>\<rparr>), [])))"

text \<open>
  A ciphertext frame arriving at the always-on node. Its channel is constructed with
  no key; the \<open>relay\<close> listener writes to the console and nothing else.
\<close>

definition always_on_receive ::
  "('k \<Rightarrow> 'c \<Rightarrow> 'm option) \<Rightarrow> 's list \<Rightarrow> always_on \<Rightarrow> 's \<Rightarrow> 'c \<Rightarrow>
   always_on \<times> ('c, 'm) channel_event \<times> ('s \<times> 'c) list" where
  "always_on_receive channel_decrypt live st sender ciphertext =
     (st, channel_receive None channel_decrypt live sender ciphertext)"

fun always_on_run ::
  "('k \<Rightarrow> 'c \<Rightarrow> 'm option) \<Rightarrow> 's list \<Rightarrow> always_on \<Rightarrow> ('s \<times> 'c) list \<Rightarrow>
   always_on \<times> ('c, 'm) channel_event list \<times> ('s \<times> 'c) list" where
  "always_on_run channel_decrypt live st [] = (st, [], [])"
| "always_on_run channel_decrypt live st ((sender, ciphertext) # frames) =
     (case always_on_receive channel_decrypt live st sender ciphertext of
        (st', ev, out) \<Rightarrow>
          (case always_on_run channel_decrypt live st' frames of
             (st'', evs, outs) \<Rightarrow> (st'', ev # evs, out @ outs)))"

section \<open>Cryptographic primitives (lib/crypto.js)\<close>

text \<open>
  The functions and constants of \<open>sodium-universal\<close> the code uses. The two secretbox
  functions are given as functions of the message (or ciphertext), the nonce and the
  key: \<open>Inl\<close> is an exception the library throws on an argument of the wrong size,
  \<open>crypto_secretbox_easy\<close> gives the bytes it writes into the ciphertext buffer, and
  \<open>crypto_secretbox_open_easy\<close> gives \<open>Some\<close> of the bytes it writes into the plaintext
  buffer when it returns true and \<open>None\<close> when it returns false.
\<close>

record sodium =
  crypto_secretbox_MACBYTES :: nat
  crypto_secretbox_NONCEBYTES :: nat
  crypto_secretbox_KEYBYTES :: nat
  crypto_secretbox_easy :: "buffer \<Rightarrow> buffer \<Rightarrow> buffer \<Rightarrow> js_error + buffer"
  crypto_secretbox_open_easy :: "buffer \<Rightarrow> buffer \<Rightarrow> buffer \<Rightarrow> js_error + buffer option"

text \<open>
  The built-in string functions the code uses, for a type \<open>'s\<close> of JavaScript strings
  and a type \<open>'v\<close> of values that are not strings: \<open>JSON.stringify\<close> (\<open>None\<close> when it
  gives \<open>undefined\<close>), \<open>Buffer.from(s, 'utf-8')\<close> and \<open>buffer.toString('utf-8')\<close>.
\<close>

record ('s, 'v) builtins =
  JSON_stringify :: "'v \<Rightarrow> 's option"
  utf8_encode :: "'s \<Rightarrow> buffer"
  utf8_decode :: "buffer \<Rightarrow> 's"

datatype ('s, 'v) plain = StringMessage 's | OtherMessage 'v

datatype secret_key = KeyBuffer buffer | KeyHex string

definition key_buffer :: "secret_key \<Rightarrow> buffer" where
  "key_buffer secretKey = (case secretKey of KeyHex h \<Rightarrow> Buffer_from_hex h | KeyBuffer b \<Rightarrow> b)"

record sealed =
  nonce :: buffer
  ciphertext :: buffer

text \<open>
  \<open>encrypt(message, secretKey)\<close>. \<open>message_text\<close> is the message after the first
  statement: a message that is not a string is replaced by \<open>JSON.stringify\<close> of it.
  \<open>random\<close> are the bytes \<open>randombytes_buf\<close> writes into the nonce.
  \<open>Buffer.from(undefined, 'utf-8')\<close> throws a \<open>TypeError\<close>.
\<close>

definition message_text :: "('s, 'v) builtins \<Rightarrow> ('s, 'v) plain \<Rightarrow> 's option" where
  "message_text B message =
     (case message of StringMessage s \<Rightarrow> Some s | OtherMessage v \<Rightarrow> JSON_stringify B v)"

definition encrypt ::
  "sodium \<Rightarrow> ('s, 'v) builtins \<Rightarrow> buffer \<Rightarrow> ('s, 'v) plain \<Rightarrow> secret_key \<Rightarrow> js_error + sealed" where
  "encrypt S B random message secretKey =
     (case message_text B message of
        None \<Rightarrow> Inl TypeError
      | Some text \<Rightarrow>
          (let key = key_buffer secretKey;
               msg = utf8_encode B text;
               c0 = Buffer_alloc (length msg + crypto_secretbox_MACBYTES S);
               n = buffer_write (Buffer_alloc (crypto_secretbox_NONCEBYTES S)) random
           in case crypto_secretbox_easy S msg n key of
                Inl e \<Rightarrow> Inl e
              | Inr c \<Rightarrow> Inr \<lparr>nonce = n, ciphertext = buffer_write c0 c\<rparr>))"

text \<open>
  \<open>decrypt(ciphertext, secretKey, nonce)\<close>. \<open>Buffer.alloc\<close> of a negative size throws a
  \<open>RangeError\<close>. The value \<open>crypto_secretbox_open_easy\<close> returns is not looked at: when
  it returns false the plaintext buffer is still as \<open>Buffer.alloc\<close> filled it.
\<close>

definition decrypt ::
  "sodium \<Rightarrow> ('s, 'v) builtins \<Rightarrow> buffer \<Rightarrow> secret_key \<Rightarrow> buffer \<Rightarrow> js_error + 's" where
  "decrypt S B c secretKey n =
     (if length n \<noteq> crypto_secretbox_NONCEBYTES S then Inl (Error ''Incorrect nonce length.'')
      else
        (let key = key_buffer secretKey in
         if length c < crypto_secretbox_MACBYTES S then Inl RangeError
         else
           (let plaintext = Buffer_alloc (length c - crypto_secretbox_MACBYTES S) in
            case crypto_secretbox_open_easy S c n key of
              Inl e \<Rightarrow> Inl e
            | Inr None \<Rightarrow> Inr (utf8_decode B plaintext)
            | Inr (Some m) \<Rightarrow> Inr (utf8_decode B (buffer_write plaintext m)))))"

text \<open>
  What the round trip needs of the library: for a nonce and a key of the right sizes,
  \<open>crypto_secretbox_easy\<close> writes a ciphertext as long as the message plus the MAC, and
  \<open>crypto_secretbox_open_easy\<close> with the same nonce and key returns true and writes the
  message back. The key size is 32 bytes.
\<close>

definition secretbox_correct :: "sodium \<Rightarrow> bool" where
  "secretbox_correct S \<longleftrightarrow>
     crypto_secretbox_KEYBYTES S = 32 \<and>
     (\<forall>m n k. length n = crypto_secretbox_NONCEBYTES S \<and> length k = crypto_secretbox_KEYBYTES S \<longrightarrow>
        (\<exists>c. crypto_secretbox_easy S m n k = Inr c \<and>
             length c = length m + crypto_secretbox_MACBYTES S \<and>
             crypto_secretbox_open_easy S c n k = Inr (Some m)))"

text \<open>
  A stand-in for the library that meets \<open>secretbox_correct\<close>, used to show that the
  requirement can be met: the MAC is sixteen zero bytes and the message is not changed.
  With it go stand-ins for the string functions, for strings given by their bytes.
\<close>

definition toy_sodium :: sodium where
  "toy_sodium =
     \<lparr>crypto_secretbox_MACBYTES = 16,
      crypto_secretbox_NONCEBYTES = 24,
      crypto_secretbox_KEYBYTES = 32,
      crypto_secretbox_easy = (\<lambda>m n k. Inr (replicate 16 0 @ m)),
      crypto_secretbox_open_easy =
        (\<lambda>c n k. if take 16 c = replicate 16 0 then Inr (Some (drop 16 c)) else Inr None)\<rparr>"

definition toy_builtins :: "(buffer, buffer) builtins" where
  "toy_builtins =
     \<lparr>JSON_stringify = (\<lambda>v. Some (0x22 # v @ [0x22])),
      utf8_encode = (\<lambda>s. s),
      utf8_decode = (\<lambda>b. b)\<rparr>"

section \<open>JSON with buffers (lib/utils.js)\<close>

text \<open>
  JavaScript values as \<open>JSON.stringify\<close> tells them apart: \<open>undefined\<close>, \<open>null\<close>,
  booleans, numbers (the integers, and \<open>JNonFinite\<close> for \<open>NaN\<close> and the infinities),
  strings, dates (with the string \<open>toISOString\<close> gives, \<open>None\<close> for an invalid date),
  arrays, objects (the list of their properties, with distinct names) and Node
  buffers. A function or a symbol is written like \<open>undefined\<close>.
\<close>

datatype jsval =
  JUndefined
| JNull
| JBool bool
| JNumber int
| JNonFinite
| JString string
| JDate "string option"
| JArray "jsval list"
| JObject "(string \<times> jsval) list"
| JBuffer buffer

text \<open>
  A JSON text is represented by the value \<open>JSON.parse\<close> reads from it when no reviver
  is given. \<open>JSON_stringify_tree v\<close> is the text \<open>JSON.stringify\<close> writes for \<open>v\<close>,
  \<open>None\<close> when it writes none (\<open>undefined\<close>): a number that is not finite is written
  as \<open>null\<close>; a date is written through its \<open>toJSON\<close> method as its ISO string, an
  invalid one as \<open>null\<close>; a buffer is written through its \<open>toJSON\<close> method, as an
  object with the property \<open>type\<close> equal to \<open>'Buffer'\<close> and the property \<open>data\<close> holding
  the bytes as numbers; an array element for which nothing is written is written as
  \<open>null\<close>, and a property for which nothing is written is left out.
\<close>

definition written_elements :: "jsval option list \<Rightarrow> jsval list" where
  "written_elements os = map (\<lambda>w. case w of None \<Rightarrow> JNull | Some t \<Rightarrow> t) os"

definition written_properties :: "(string \<times> jsval option) list \<Rightarrow> (string \<times> jsval) list" where
  "written_properties kos = List.map_filter (\<lambda>kw. map_option (Pair (fst kw)) (snd kw)) kos"

primrec JSON_stringify_tree :: "jsval \<Rightarrow> jsval option" where
  "JSON_stringify_tree JUndefined = None"
| "JSON_stringify_tree JNull = Some JNull"
| "JSON_stringify_tree (JBool b) = Some (JBool b)"
| "JSON_stringify_tree (JNumber n) = Some (JNumber n)"
| "JSON_stringify_tree JNonFinite = Some JNull"
| "JSON_stringify_tree (JString s) = Some (JString s)"
| "JSON_stringify_tree (JDate d) = Some (case d of None \<Rightarrow> JNull | Some s \<Rightarrow> JString s)"
| "JSON_stringify_tree (JArray xs) = Some (JArray (written_elements (map JSON_stringify_tree xs)))"
| "JSON_stringify_tree (JObject kvs) =
     Some (JObject (written_properties (map (map_prod id JSON_stringify_tree) kvs)))"
| "JSON_stringify_tree (JBuffer bs) =
     Some (JObject [(''type'', JString ''Buffer''), (''data'', JArray (map (\<lambda>b. JNumber (uint b)) bs))])"

text \<open>
  \<open>JSON.parse(text, reviver)\<close> calls the reviver on every value of the parsed text,
  the properties of an object or array before the object or array itself, and puts
  what the reviver returns in the value's place.
\<close>

primrec JSON_parse_reviving :: "(jsval \<Rightarrow> jsval) \<Rightarrow> jsval \<Rightarrow> jsval" where
  "JSON_parse_reviving r JUndefined = r JUndefined"
| "JSON_parse_reviving r JNull = r JNull"
| "JSON_parse_reviving r (JBool b) = r (JBool b)"
| "JSON_parse_reviving r (JNumber n) = r (JNumber n)"
| "JSON_parse_reviving r JNonFinite = r JNonFinite"
| "JSON_parse_reviving r (JString s) = r (JString s)"
| "JSON_parse_reviving r (JDate d) = r (JDate d)"
| "JSON_parse_reviving r (JArray xs) = r (JArray (map (JSON_parse_reviving r) xs))"
| "JSON_parse_reviving r (JObject kvs) = r (JObject (map (map_prod id (JSON_parse_reviving r)) kvs))"
| "JSON_parse_reviving r (JBuffer bs) = r (JBuffer bs)"

text \<open>
  \<open>Buffer.from(array)\<close> takes every entry modulo 256. For an entry that is not a
  number JavaScript first converts it to one; that conversion is the parameter
  \<open>coerce\<close>.
\<close>

definition Buffer_from_array :: "(jsval \<Rightarrow> 8 word) \<Rightarrow> jsval list \<Rightarrow> buffer" where
  "Buffer_from_array coerce xs =
     map (\<lambda>x. case x of JNumber n \<Rightarrow> word_of_int n | _ \<Rightarrow> coerce x) xs"

text \<open>
  The test of the reviver: an object (not \<open>null\<close>) with a property \<open>type\<close> equal to
  \<open>'Buffer'\<close> and a property \<open>data\<close> that is an array. Arrays, dates and buffers have
  no property \<open>type\<close>. \<open>serialised_buffer v\<close> is that array when \<open>v\<close> passes the test.
\<close>

definition serialised_buffer :: "jsval \<Rightarrow> jsval list option" where
  "serialised_buffer v =
     (case v of
        JObject kvs \<Rightarrow>
          (case map_of kvs ''type'' of
             Some (JString t) \<Rightarrow>
               (if t = ''Buffer''
                then (case map_of kvs ''data'' of Some (JArray xs) \<Rightarrow> Some xs | _ \<Rightarrow> None)
                else None)
           | _ \<Rightarrow> None)
      | _ \<Rightarrow> None)"

definition reviver :: "(jsval \<Rightarrow> 8 word) \<Rightarrow> jsval \<Rightarrow> jsval" where
  "reviver coerce v =
     (case serialised_buffer v of
        Some xs \<Rightarrow> JBuffer (Buffer_from_array coerce xs)
      | None \<Rightarrow> v)"

definition jsonParseWithBufferSupport :: "(jsval \<Rightarrow> 8 word) \<Rightarrow> jsval \<Rightarrow> jsval" where
  "jsonParseWithBufferSupport coerce str = JSON_parse_reviving (reviver coerce) str"

text \<open>
  A place in a value: the path of property names and array indices that leads to it.
  \<open>at v p\<close> is the value at the place \<open>p\<close> of \<open>v\<close>, \<open>None\<close> when \<open>v\<close> has no such place.
  Only the properties of objects and the elements of arrays are places.
\<close>

datatype selector = Key string | Index nat

fun property :: "jsval \<Rightarrow> selector \<Rightarrow> jsval option" where
  "property (JObject kvs) (Key k) = map_of kvs k"
| "property (JArray xs) (Index i) = (if i < length xs then Some (xs ! i) else None)"
| "property _ _ = None"

fun at :: "jsval \<Rightarrow> selector list \<Rightarrow> jsval option" where
  "at v [] = Some v"
| "at v (s # p) = (case property v s of None \<Rightarrow> None | Some x \<Rightarrow> at x p)"

text \<open>
  The values in which no object other than a buffer passes the reviver's test once
  written: no object in the value is written with a property \<open>type\<close> equal to
  \<open>'Buffer'\<close> and an array as its property \<open>data\<close>.
\<close>

primrec no_lookalike :: "jsval \<Rightarrow> bool" where
  "no_lookalike JUndefined = True"
| "no_lookalike JNull = True"
| "no_lookalike (JBool b) = True"
| "no_lookalike (JNumber n) = True"
| "no_lookalike JNonFinite = True"
| "no_lookalike (JString s) = True"
| "no_lookalike (JDate d) = True"
| "no_lookalike (JArray xs) = list_all no_lookalike xs"
| "no_lookalike (JObject kvs) =
     (list_all snd (map (map_prod id no_lookalike) kvs) \<and>
      serialised_buffer (JObject (written_properties (map (map_prod id JSON_stringify_tree) kvs))) = None)"
| "no_lookalike (JBuffer bs) = True"

text \<open>The texts in which no value passes the reviver's test.\<close>

primrec no_serialised_buffer :: "jsval \<Rightarrow> bool" where
  "no_serialised_buffer JUndefined = True"
| "no_serialised_buffer JNull = True"
| "no_serialised_buffer (JBool b) = True"
| "no_serialised_buffer (JNumber n) = True"
| "no_serialised_buffer JNonFinite = True"
| "no_serialised_buffer (JString s) = True"
| "no_serialised_buffer (JDate d) = True"
| "no_serialised_buffer (JArray xs) = list_all no_serialised_buffer xs"
| "no_serialised_buffer (JObject kvs) =
     (list_all snd (map (map_prod id no_serialised_buffer) kvs) \<and> serialised_buffer (JObject kvs) = None)"
| "no_serialised_buffer (JBuffer bs) = True"

section \<open>The append-only log\<close>

text \<open>
  Modelled from the spec: the append-only log with its entries, \<open>append\<close>, \<open>verify\<close> and
  \<open>tail\<close> (the code that keeps the log is the hypercore library under hyperdb, which is
  not among the sources). Sections 3 and 4.1 of the specification: an entry has a
  \<open>sequence\<close> (0-based), a \<open>payload\<close>, a \<open>signature\<close> over sequence, payload and previous
  hash, and a \<open>previousHash\<close>, the hash of the prior entry, null for sequence 0.
  \<open>append\<close> is only valid if the log holds the private signing key, computes
  \<open>previousHash\<close> from the current tail, signs, assigns the next sequence and stores the
  entry; it fails with \<open>NotAWriter\<close> if no private key is held. \<open>verify\<close> checks the
  signature against the log's public key and the hash-chain continuity, and is used
  on every received entry before acceptance.

  The hash function \<open>hash\<close>, the signing function \<open>sign\<close> and the signature check
  \<open>check\<close> are parameters.
\<close>

record ('h, 'g) entry =
  sequence :: nat
  payload :: buffer
  signature :: 'g
  previousHash :: "'h option"

datatype log_error = NotAWriter

record ('h, 'g, 'k) append_only_log =
  entries :: "('h, 'g) entry list"
  writeKey :: "'k option"

definition tail :: "('h, 'g, 'k) append_only_log \<Rightarrow> ('h, 'g) entry option" where
  "tail log = (if entries log = [] then None else Some (last (entries log)))"

definition append ::
  "(('h, 'g) entry \<Rightarrow> 'h) \<Rightarrow> ('k \<Rightarrow> nat \<Rightarrow> buffer \<Rightarrow> 'h option \<Rightarrow> 'g) \<Rightarrow>
   ('h, 'g, 'k) append_only_log \<Rightarrow> buffer \<Rightarrow> log_error + (('h, 'g, 'k) append_only_log \<times> ('h, 'g) entry)" where
  "append hash sign log p =
     (case writeKey log of
        None \<Rightarrow> Inl NotAWriter
      | Some k \<Rightarrow>
          (let prev = map_option hash (tail log);
               next_sequence = (case tail log of None \<Rightarrow> 0 | Some t \<Rightarrow> sequence t + 1);
               e = \<lparr>sequence = next_sequence, payload = p,
                    signature = sign k next_sequence p prev, previousHash = prev\<rparr>
           in Inr (log\<lparr>entries := entries log @ [e]\<rparr>, e)))"

definition verify ::
  "(('h, 'g) entry \<Rightarrow> 'h) \<Rightarrow> (('h, 'g) entry \<Rightarrow> bool) \<Rightarrow> ('h, 'g) entry \<Rightarrow> ('h, 'g) entry option \<Rightarrow> bool" where
  "verify hash check e previousEntry =
     (check e \<and>
      (case previousEntry of
         None \<Rightarrow> sequence e = 0 \<and> previousHash e = None
       | Some p \<Rightarrow> sequence e = sequence p + 1 \<and> previousHash e = Some (hash p)))"

text \<open>
  A received entry is accepted at the end of the log when it verifies against the
  current tail, and dropped otherwise.
\<close>

definition receive_entry ::
  "(('h, 'g) entry \<Rightarrow> 'h) \<Rightarrow> (('h, 'g) entry \<Rightarrow> bool) \<Rightarrow>
   ('h, 'g, 'k) append_only_log \<Rightarrow> ('h, 'g) entry \<Rightarrow> ('h, 'g, 'k) append_only_log" where
  "receive_entry hash check log e =
     (if verify hash check e (tail log) then log\<lparr>entries := entries log @ [e]\<rparr> else log)"

text \<open>
  The ways a log grows: a local append of a payload, or a received entry. A failed
  append leaves the log as it is.
\<close>

datatype ('h, 'g) log_op = Append buffer | Receive "('h, 'g) entry"

definition apply_log_op ::
  "(('h, 'g) entry \<Rightarrow> 'h) \<Rightarrow> ('k \<Rightarrow> nat \<Rightarrow> buffer \<Rightarrow> 'h option \<Rightarrow> 'g) \<Rightarrow> (('h, 'g) entry \<Rightarrow> bool) \<Rightarrow>
   ('h, 'g, 'k) append_only_log \<Rightarrow> ('h, 'g) log_op \<Rightarrow> ('h, 'g, 'k) append_only_log" where
  "apply_log_op hash sign check log x =
     (case x of
        Append p \<Rightarrow> (case append hash sign log p of Inl _ \<Rightarrow> log | Inr (log', _) \<Rightarrow> log')
      | Receive e \<Rightarrow> receive_entry hash check log e)"

definition apply_log_ops ::
  "(('h, 'g) entry \<Rightarrow> 'h) \<Rightarrow> ('k \<Rightarrow> nat \<Rightarrow> buffer \<Rightarrow> 'h option \<Rightarrow> 'g) \<Rightarrow> (('h, 'g) entry \<Rightarrow> bool) \<Rightarrow>
   ('h, 'g, 'k) append_only_log \<Rightarrow> ('h, 'g) log_op list \<Rightarrow> ('h, 'g, 'k) append_only_log" where
  "apply_log_ops hash sign check log xs = foldl (apply_log_op hash sign check) log xs"

text \<open>
  The hash chain of a list of entries: entry \<open>i\<close> has sequence \<open>i\<close> and the hash of
  entry \<open>i - 1\<close> as its previous hash, none for the first. \<open>links\<close> checks it entry by
  entry, from a given predecessor.
\<close>

definition hash_chain :: "(('h, 'g) entry \<Rightarrow> 'h) \<Rightarrow> ('h, 'g) entry list \<Rightarrow> bool" where
  "hash_chain hash es \<longleftrightarrow>
     (\<forall>i < length es.
        sequence (es ! i) = i \<and>
        previousHash (es ! i) = (if i = 0 then None else Some (hash (es ! (i - 1)))))"

fun links :: "(('h, 'g) entry \<Rightarrow> 'h) \<Rightarrow> ('h, 'g) entry option \<Rightarrow> ('h, 'g) entry list \<Rightarrow> bool" where
  "links hash prev [] = True"
| "links hash prev (e # es) =
     ((case prev of
         None \<Rightarrow> sequence e = 0 \<and> previousHash e = None
       | Some p \<Rightarrow> sequence e = sequence p + 1 \<and> previousHash e = Some (hash p))
      \<and> links hash (Some e) es)"

text \<open>The hash of the last entry of a list of entries, none for the empty list.\<close>

definition head_hash :: "(('h, 'g) entry \<Rightarrow> 'h) \<Rightarrow> ('h, 'g) entry list \<Rightarrow> 'h option" where
  "head_hash hash es = (if es = [] then None else Some (hash (last es)))"

section \<open>Concrete inputs\<close>

text \<open>
  Inputs at which the theorems below are instantiated: a stand-in for
  \<open>JSON.stringify\<close> on messages (the fields, separated by commas), a stand-in for the
  digest (the text itself), an authorisation request and a node that has seen nothing.
\<close>

definition example_stringify :: "message \<Rightarrow> string" where
  "example_stringify m = nodeName m @ '','' @ timestamp m @ '','' @ action m @ '','' @ readKey m"

definition example_digest :: "string \<Rightarrow> string" where
  "example_digest s = s"

definition example_request :: message where
  "example_request =
     \<lparr>nodeName = ''Firefox on Linux'', timestamp = ''2019-02-01T10:00:00.000Z'',
      action = ''authorise'', readKey = ''0b77''\<rparr>"

definition example_node :: node where
  "example_node =
     \<lparr>ephemeralMessageHashes = Map.empty, lastRequest = None, authorisationRequest = None,
      modelNodeName = ''Chrome on OS X'', localKey = Some ''c4a9''\<rparr>"

section \<open>Properties of the browser node\<close>

subsection \<open>The seen-set\<close>

lemma on_message_hashes:
  "ephemeralMessageHashes (fst (on_message js sha st m)) =
     (if ephemeralMessageHashes st (createMessageHash js sha m) \<noteq> None
      then ephemeralMessageHashes st
      else (ephemeralMessageHashes st)(createMessageHash js sha m \<mapsto> True))"
  by (simp add: on_message_def Let_def)

lemma authorized_callback_hashes:
  "ephemeralMessageHashes (authorized_callback st m res) = ephemeralMessageHashes st"
  by (simp add: authorized_callback_def split: authorized_result.splits)

lemma on_requestAuthorisation_hashes:
  "ephemeralMessageHashes (fst (on_requestAuthorisation js sha st now)) =
     (case localKey st of
        None \<Rightarrow> ephemeralMessageHashes st
      | Some key \<Rightarrow> (ephemeralMessageHashes st)
          (createMessageHash js sha
             \<lparr>nodeName = modelNodeName st, timestamp = now, action = ''authorise'', readKey = key\<rparr> \<mapsto> True))"
  by (simp add: on_requestAuthorisation_def Let_def split: option.splits)

lemma step_keeps_seen:
  "ephemeralMessageHashes st h \<noteq> None \<Longrightarrow> ephemeralMessageHashes (step js sha st e) h \<noteq> None"
  by (cases e)
     (auto simp: on_message_hashes authorized_callback_hashes on_requestAuthorisation_hashes
           on_received_bad_message_def split: option.splits)

lemma run_keeps_seen:
  "ephemeralMessageHashes st h \<noteq> None \<Longrightarrow> ephemeralMessageHashes (run js sha st es) h \<noteq> None"
proof (induction es arbitrary: st)
  case Nil
  then show ?case by simp
next
  case (Cons e es)
  show ?case using Cons.IH [OF step_keeps_seen [OF Cons.prems]] by simp
qed

lemma step_dom:
  "dom (ephemeralMessageHashes (step js sha st e)) = dom (ephemeralMessageHashes st) \<or>
   (\<exists>h. dom (ephemeralMessageHashes (step js sha st e)) = insert h (dom (ephemeralMessageHashes st)))"
  by (cases e)
     (auto simp: on_message_hashes authorized_callback_hashes on_requestAuthorisation_hashes
           on_received_bad_message_def split: option.splits)

lemma handled_seen:
  "ephemeralMessageHashes st h \<noteq> None \<Longrightarrow> handled js sha st es h = 0"
proof (induction es arbitrary: st)
  case Nil
  then show ?case by simp
next
  case (Cons e es)
  have nxt: "handled js sha (step js sha st e) es h = 0"
    using Cons.IH [OF step_keeps_seen [OF Cons.prems]] .
  show ?case
  proof (cases e)
    case (Message m)
    have "createMessageHash js sha m = h \<Longrightarrow> snd (on_message js sha st m) = Ignored"
      using Cons.prems by (auto simp: on_message_def Let_def)
    then show ?thesis using nxt Message by auto
  qed (use nxt in auto)
qed

lemma handled_first:
  assumes "ephemeralMessageHashes st (createMessageHash js sha m) = None"
  shows "handled js sha st (Message m # es) (createMessageHash js sha m) = 1"
proof -
  have out: "snd (on_message js sha st m) \<noteq> Ignored"
    using assms by (simp add: on_message_def Let_def)
  have "ephemeralMessageHashes (step js sha st (Message m)) (createMessageHash js sha m) \<noteq> None"
    using assms by (simp add: on_message_hashes)
  then have "handled js sha (step js sha st (Message m)) es (createMessageHash js sha m) = 0"
    by (rule handled_seen)
  then show ?thesis using out by simp
qed

text \<open>
  C1. A message whose content hash is already in the seen-set when it is received is
  dropped by the \<open>message\<close> listener without any further processing: the state is
  unchanged and nothing is acted on. This covers a duplicate delivered over a second
  session and the echo of a message the node itself broadcast (its hash is marked on
  broadcast). On the first receipt of a message whose hash is not in the seen-set, the
  listener acts on it, and the state it acts in already holds the hash. Over any
  further run of events on the node (other messages, callbacks, clicks), however often
  the message arrives again, the number of arrivals with that content hash that get
  past the seen-set check is exactly one.
\<close>

theorem duplicate_message_dropped:
  "(ephemeralMessageHashes st (createMessageHash js sha m) \<noteq> None \<longrightarrow>
      on_message js sha st m = (st, Ignored) \<and>
      handled js sha st es (createMessageHash js sha m) = 0) \<and>
   (ephemeralMessageHashes st (createMessageHash js sha m) = None \<longrightarrow>
      snd (on_message js sha st m) \<noteq> Ignored \<and>
      ephemeralMessageHashes (fst (on_message js sha st m)) =
        (ephemeralMessageHashes st)(createMessageHash js sha m \<mapsto> True) \<and>
      handled js sha st (Message m # es) (createMessageHash js sha m) = 1) \<and>
   (snd (on_requestAuthorisation js sha st now) = Inr m \<longrightarrow>
      handled js sha (fst (on_requestAuthorisation js sha st now)) es (createMessageHash js sha m) = 0)"
proof (intro conjI impI)
  assume seen: "ephemeralMessageHashes st (createMessageHash js sha m) \<noteq> None"
  show "on_message js sha st m = (st, Ignored)"
    using seen by (auto simp: on_message_def Let_def)
  show "handled js sha st es (createMessageHash js sha m) = 0"
    using seen by (rule handled_seen)
next
  assume fresh: "ephemeralMessageHashes st (createMessageHash js sha m) = None"
  show "snd (on_message js sha st m) \<noteq> Ignored"
    using fresh by (simp add: on_message_def Let_def)
  show "ephemeralMessageHashes (fst (on_message js sha st m)) =
        (ephemeralMessageHashes st)(createMessageHash js sha m \<mapsto> True)"
    using fresh by (simp add: on_message_hashes)
  show "handled js sha st (Message m # es) (createMessageHash js sha m) = 1"
    using fresh by (rule handled_first)
next
  assume sent: "snd (on_requestAuthorisation js sha st now) = Inr m"
  have "ephemeralMessageHashes (fst (on_requestAuthorisation js sha st now))
          (createMessageHash js sha m) \<noteq> None"
    using sent by (auto simp: on_requestAuthorisation_def Let_def split: option.splits)
  then show "handled js sha (fst (on_requestAuthorisation js sha st now)) es
               (createMessageHash js sha m) = 0"
    by (rule handled_seen)
qed

theorem duplicate_message_dropped_witness:
  "ephemeralMessageHashes example_node
     (createMessageHash example_stringify example_digest example_request) = None \<and>
   snd (on_message example_stringify example_digest example_node example_request)
     = CheckingSelfAuthorisation example_request \<and>
   handled example_stringify example_digest example_node
     [Message example_request, Message example_request, Message example_request]
     (createMessageHash example_stringify example_digest example_request) = 1 \<and>
   on_message example_stringify example_digest
     (fst (on_message example_stringify example_digest example_node example_request)) example_request
     = (fst (on_message example_stringify example_digest example_node example_request), Ignored)"
proof -
  let ?st1 = "fst (on_message example_stringify example_digest example_node example_request)"
  have fresh: "ephemeralMessageHashes example_node
     (createMessageHash example_stringify example_digest example_request) = None"
    by (simp add: example_node_def)
  have first: "snd (on_message example_stringify example_digest example_node example_request)
     = CheckingSelfAuthorisation example_request"
    using fresh by (simp add: on_message_def Let_def example_request_def)
  have seen: "ephemeralMessageHashes ?st1
     (createMessageHash example_stringify example_digest example_request) \<noteq> None"
    using fresh by (simp add: on_message_hashes)
  from duplicate_message_dropped
    [of example_node example_stringify example_digest example_request
        "[Message example_request, Message example_request]"]
  have once: "handled example_stringify example_digest example_node
     [Message example_request, Message example_request, Message example_request]
     (createMessageHash example_stringify example_digest example_request) = 1"
    using fresh by blast
  from duplicate_message_dropped [of ?st1 example_stringify example_digest example_request]
  have "on_message example_stringify example_digest ?st1 example_request = (?st1, Ignored)"
    using seen by blast
  with fresh first once show ?thesis by blast
qed

text \<open>
  C6. The seen-set only grows. Every event on the node (a message arriving, a bad
  message, a \<open>db.authorized\<close> callback, an Authorise click, a Request authorisation
  click) either
  leaves the set of seen content hashes as it was or adds one hash to it, and over
  any run of events a hash that is in the seen-set stays in it: nothing removes an
  entry.
\<close>

theorem seen_set_monotone:
  "(dom (ephemeralMessageHashes (step js sha st e)) = dom (ephemeralMessageHashes st) \<or>
    (\<exists>h. dom (ephemeralMessageHashes (step js sha st e)) = insert h (dom (ephemeralMessageHashes st)))) \<and>
   dom (ephemeralMessageHashes st) \<subseteq> dom (ephemeralMessageHashes (run js sha st es)) \<and>
   (h \<in> dom (ephemeralMessageHashes st) \<longrightarrow>
      h \<in> dom (ephemeralMessageHashes (run js sha st es)) \<and>
      (createMessageHash js sha m = h \<longrightarrow>
         on_message js sha (run js sha st es) m = (run js sha st es, Ignored)))"
proof (intro conjI impI)
  show "dom (ephemeralMessageHashes (step js sha st e)) = dom (ephemeralMessageHashes st) \<or>
    (\<exists>h. dom (ephemeralMessageHashes (step js sha st e)) = insert h (dom (ephemeralMessageHashes st)))"
    by (rule step_dom)
next
  show "dom (ephemeralMessageHashes st) \<subseteq> dom (ephemeralMessageHashes (run js sha st es))"
  proof
    fix x
    assume "x \<in> dom (ephemeralMessageHashes st)"
    then have "ephemeralMessageHashes st x \<noteq> None" by auto
    then have "ephemeralMessageHashes (run js sha st es) x \<noteq> None" by (rule run_keeps_seen)
    then show "x \<in> dom (ephemeralMessageHashes (run js sha st es))" by auto
  qed
next
  assume "h \<in> dom (ephemeralMessageHashes st)"
  then have "ephemeralMessageHashes st h \<noteq> None" by auto
  then have kept: "ephemeralMessageHashes (run js sha st es) h \<noteq> None" by (rule run_keeps_seen)
  then show "h \<in> dom (ephemeralMessageHashes (run js sha st es))" by auto
  show "on_message js sha (run js sha st es) m = (run js sha st es, Ignored)"
    if "createMessageHash js sha m = h"
    using kept that by (auto simp: on_message_def Let_def)
qed

theorem seen_set_monotone_witness:
  "dom (ephemeralMessageHashes
      (run example_stringify example_digest example_node [Message example_request])) =
     {createMessageHash example_stringify example_digest example_request} \<and>
   createMessageHash example_stringify example_digest example_request
     \<in> dom (ephemeralMessageHashes
          (run example_stringify example_digest
             (run example_stringify example_digest example_node [Message example_request])
             [AuthorizedCallback example_request (Authorized True), Authorise,
              RequestAuthorisation ''2019-02-01T10:00:01.000Z'', Message example_request]))"
proof -
  let ?h = "createMessageHash example_stringify example_digest example_request"
  let ?st1 = "run example_stringify example_digest example_node [Message example_request]"
  have one: "dom (ephemeralMessageHashes ?st1) = {?h}"
    by (simp add: on_message_hashes example_node_def)
  then have "?h \<in> dom (ephemeralMessageHashes ?st1)" by simp
  with seen_set_monotone [of example_stringify example_digest ?st1 _ _ ?h]
  have "?h \<in> dom (ephemeralMessageHashes
          (run example_stringify example_digest ?st1
             [AuthorizedCallback example_request (Authorized True), Authorise,
              RequestAuthorisation ''2019-02-01T10:00:01.000Z'', Message example_request]))"
    by blast
  with one show ?thesis by blast
qed

subsection \<open>Authorisation requests\<close>

lemma authorisations_sound:
  "key \<in> set (authorisations js sha st es) \<Longrightarrow>
     (\<exists>r. lastRequest st = Some r \<and> key = Buffer_from_hex (readKey r)) \<or>
     (\<exists>r. AuthorizedCallback r (Authorized True) \<in> set es \<and> key = Buffer_from_hex (readKey r))"
proof (induction es arbitrary: st)
  case Nil
  then show ?case by simp
next
  case (Cons e es)
  show ?case
  proof (cases e)
    case (Message m)
    have "lastRequest (step js sha st e) = lastRequest st"
      using Message by (simp add: on_message_def Let_def)
    then show ?thesis using Cons.IH [of "step js sha st e"] Cons.prems Message by auto
  next
    case BadMessage
    then show ?thesis using Cons.IH [of st] Cons.prems
      by (simp add: on_received_bad_message_def)
  next
    case (AuthorizedCallback r res)
    have mem: "key \<in> set (authorisations js sha (authorized_callback st r res) es)"
      using Cons.prems AuthorizedCallback by simp
    show ?thesis
    proof (cases "res = Authorized True")
      case True
      have "lastRequest (authorized_callback st r res) = Some r"
        using True by (simp add: authorized_callback_def)
      with Cons.IH [OF mem] show ?thesis
        using True AuthorizedCallback by auto
    next
      case False
      have "authorized_callback st r res = st"
        using False by (cases res) (auto simp: authorized_callback_def)
      with Cons.IH [OF mem] show ?thesis
        using AuthorizedCallback by auto
    qed
  next
    case Authorise
    then show ?thesis using Cons.IH [of st] Cons.prems
      by (auto simp: on_authorise_def split: option.splits sum.splits)
  next
    case (RequestAuthorisation now)
    have "lastRequest (step js sha st e) = lastRequest st"
      using RequestAuthorisation by (simp add: on_requestAuthorisation_def Let_def split: option.splits)
    then show ?thesis using Cons.IH [of "step js sha st e"] Cons.prems RequestAuthorisation by auto
  qed
qed

text \<open>
  C5. An authorisation request that arrived over the ephemeral channel is surfaced for
  granting (stored as \<open>model.lastRequest\<close> and shown in the view) only when the
  \<open>db.authorized\<close> check of the node's own local writer answered true. When the check
  answers false or errors, the request is ignored: the callback leaves the state as it
  was. The \<open>message\<close> listener itself never stores or shows a request. Hence, on a node
  that holds no request at the start, every key that an Authorise click passes to
  \<open>db.authorize\<close> over any run of events is the read key of a request whose
  self-authorisation check answered true; no authorisation is produced for any other
  request.
\<close>

theorem authorisation_only_when_self_authorised:
  "(res \<noteq> Authorized True \<longrightarrow> authorized_callback st r res = st) \<and>
   authorized_callback st r (Authorized True) =
     st\<lparr>lastRequest := Some r, authorisationRequest := Some (nodeName r)\<rparr> \<and>
   lastRequest (fst (on_message js sha st m)) = lastRequest st \<and>
   authorisationRequest (fst (on_message js sha st m)) = authorisationRequest st \<and>
   (lastRequest st = None \<longrightarrow> on_authorise st = Inl TypeError) \<and>
   (lastRequest st = None \<longrightarrow>
      (\<forall>key \<in> set (authorisations js sha st es).
         \<exists>r'. AuthorizedCallback r' (Authorized True) \<in> set es \<and> key = Buffer_from_hex (readKey r')))"
proof (intro conjI impI ballI)
  assume "res \<noteq> Authorized True"
  then show "authorized_callback st r res = st"
    by (cases res) (auto simp: authorized_callback_def)
next
  show "authorized_callback st r (Authorized True) =
     st\<lparr>lastRequest := Some r, authorisationRequest := Some (nodeName r)\<rparr>"
    by (simp add: authorized_callback_def)
next
  show "lastRequest (fst (on_message js sha st m)) = lastRequest st"
    by (simp add: on_message_def Let_def)
next
  show "authorisationRequest (fst (on_message js sha st m)) = authorisationRequest st"
    by (simp add: on_message_def Let_def)
next
  assume "lastRequest st = None"
  then show "on_authorise st = Inl TypeError"
    by (simp add: on_authorise_def)
next
  fix key
  assume none: "lastRequest st = None"
    and mem: "key \<in> set (authorisations js sha st es)"
  from authorisations_sound [OF mem] none
  show "\<exists>r'. AuthorizedCallback r' (Authorized True) \<in> set es \<and> key = Buffer_from_hex (readKey r')"
    by auto
qed

theorem authorisation_only_when_self_authorised_witness:
  "lastRequest example_node = None \<and>
   authorisations example_stringify example_digest example_node
     [Message example_request, AuthorizedCallback example_request (Authorized True), Authorise]
     = [[0x0b, 0x77]] \<and>
   authorisations example_stringify example_digest example_node
     [Message example_request, AuthorizedCallback example_request (Authorized False), Authorise]
     = [] \<and>
   authorisations example_stringify example_digest example_node
     [Message example_request, AuthorizedCallback example_request AuthorizedError, Authorise]
     = [] \<and>
   authorized_callback example_node example_request AuthorizedError = example_node \<and>
   (\<exists>r'. AuthorizedCallback r' (Authorized True)
           \<in> set [Message example_request, AuthorizedCallback example_request (Authorized True), Authorise] \<and>
         [0x0b, 0x77] = Buffer_from_hex (readKey r'))"
proof -
  have none: "lastRequest example_node = None"
    by (simp add: example_node_def)
  have granted: "authorisations example_stringify example_digest example_node
     [Message example_request, AuthorizedCallback example_request (Authorized True), Authorise]
     = [[0x0b, 0x77]]"
    by (simp add: on_message_def Let_def authorized_callback_def on_authorise_def
          example_node_def example_request_def hex_digit_def)
  have refused: "authorisations example_stringify example_digest example_node
     [Message example_request, AuthorizedCallback example_request (Authorized False), Authorise]
     = []"
    by (simp add: on_message_def Let_def authorized_callback_def on_authorise_def
          example_node_def example_request_def)
  have failed: "authorisations example_stringify example_digest example_node
     [Message example_request, AuthorizedCallback example_request AuthorizedError, Authorise]
     = []"
    by (simp add: on_message_def Let_def authorized_callback_def on_authorise_def
          example_node_def example_request_def)
  note inst = authorisation_only_when_self_authorised
    [of AuthorizedError example_node example_request example_stringify example_digest example_request
        "[Message example_request, AuthorizedCallback example_request (Authorized True), Authorise]"]
  have ignored: "authorized_callback example_node example_request AuthorizedError = example_node"
    using inst by simp
  have "\<forall>key \<in> set (authorisations example_stringify example_digest example_node
     [Message example_request, AuthorizedCallback example_request (Authorized True), Authorise]).
     \<exists>r'. AuthorizedCallback r' (Authorized True)
           \<in> set [Message example_request, AuthorizedCallback example_request (Authorized True), Authorise] \<and>
         key = Buffer_from_hex (readKey r')"
    using inst none by blast
  then have "\<exists>r'. AuthorizedCallback r' (Authorized True)
           \<in> set [Message example_request, AuthorizedCallback example_request (Authorized True), Authorise] \<and>
         [0x0b, 0x77] = Buffer_from_hex (readKey r')"
    unfolding granted by simp
  with none granted refused failed ignored show ?thesis by blast
qed

section \<open>Properties of the always-on node\<close>

text \<open>
  C7. A request for \<open>/.well-known/dat\<close> to the always-on node is answered as
  \<open>text/plain\<close> with the read key held in its settings as the body (nothing when the
  settings hold \<open>null\<close>). The client's \<open>getReadKeyFromDatDNS\<close> turns an empty body into
  \<open>null\<close> and returns any other body as it is; so a stored, non-empty read key reaches
  the client unchanged.
\<close>

theorem discovery_record:
  "middleware st ''/.well-known/dat'' = Some (''text/plain'', response_end (settingsReadKey (settings st))) \<and>
   (settingsReadKey (settings st) = Some k \<longrightarrow> middleware st ''/.well-known/dat'' = Some (''text/plain'', k)) \<and>
   getReadKeyFromDatDNS [] = None \<and>
   (response \<noteq> [] \<longrightarrow> getReadKeyFromDatDNS response = Some response) \<and>
   (settingsReadKey (settings st) = Some k \<and> k \<noteq> [] \<longrightarrow>
      map_option (\<lambda>r. getReadKeyFromDatDNS (snd r)) (middleware st ''/.well-known/dat'') = Some (Some k))"
  by (simp add: middleware_def response_end_def getReadKeyFromDatDNS_def)

theorem discovery_record_witness:
  "middleware \<lparr>settings = \<lparr>settingsReadKey = Some ''0b77c7fc''\<rparr>, settingsFile = defaultSettings, hyperdbs = []\<rparr>
     ''/.well-known/dat'' = Some (''text/plain'', ''0b77c7fc'') \<and>
   getReadKeyFromDatDNS ''0b77c7fc'' = Some ''0b77c7fc'' \<and>
   map_option (\<lambda>r. getReadKeyFromDatDNS (snd r))
     (middleware \<lparr>settings = \<lparr>settingsReadKey = Some ''0b77c7fc''\<rparr>, settingsFile = defaultSettings, hyperdbs = []\<rparr>
        ''/.well-known/dat'') = Some (Some ''0b77c7fc'') \<and>
   map_option (\<lambda>r. getReadKeyFromDatDNS (snd r))
     (middleware \<lparr>settings = defaultSettings, settingsFile = defaultSettings, hyperdbs = []\<rparr>
        ''/.well-known/dat'') = Some None"
proof -
  let ?st = "\<lparr>settings = \<lparr>settingsReadKey = Some ''0b77c7fc''\<rparr>, settingsFile = defaultSettings, hyperdbs = []\<rparr>"
  note inst = discovery_record [of ?st "''0b77c7fc''" "''0b77c7fc''"]
  have a: "middleware ?st ''/.well-known/dat'' = Some (''text/plain'', ''0b77c7fc'')"
    using inst by (simp add: response_end_def)
  have b: "getReadKeyFromDatDNS ''0b77c7fc'' = Some ''0b77c7fc''"
    using inst by simp
  have c: "map_option (\<lambda>r. getReadKeyFromDatDNS (snd r)) (middleware ?st ''/.well-known/dat'')
     = Some (Some ''0b77c7fc'')"
    using inst by (simp add: response_end_def)
  have d: "map_option (\<lambda>r. getReadKeyFromDatDNS (snd r))
     (middleware \<lparr>settings = defaultSettings, settingsFile = defaultSettings, hyperdbs = []\<rparr>
        ''/.well-known/dat'') = Some None"
    using discovery_record
      [of "\<lparr>settings = defaultSettings, settingsFile = defaultSettings, hyperdbs = []\<rparr>"]
    by (simp add: defaultSettings_def response_end_def)
  from a b c d show ?thesis by blast
qed

text \<open>
  C3. On a node that was never provisioned the settings are \<open>defaultSettings\<close>, whose
  read key is the empty string. The sign-up route compares the read key with \<open>null\<close>,
  so on such a node it answers that the hypha already exists, closes the web socket,
  starts no replication and stores nothing. Sign-up goes through only when the
  settings hold \<open>null\<close>.
\<close>

theorem sign_up_refused_on_default_settings:
  "sign_up \<lparr>settings = defaultSettings, settingsFile = defaultSettings, hyperdbs = []\<rparr> ''0b77c7fc'' =
     Inr (\<lparr>settings = defaultSettings, settingsFile = defaultSettings, hyperdbs = []\<rparr>,
          [Send_error ''Hypha already exists.'', Close]) \<and>
   sign_up \<lparr>settings = \<lparr>settingsReadKey = None\<rparr>, settingsFile = defaultSettings, hyperdbs = []\<rparr> ''0b77c7fc'' =
     Inr (\<lparr>settings = \<lparr>settingsReadKey = Some ''0b77c7fc''\<rparr>,
           settingsFile = \<lparr>settingsReadKey = Some ''0b77c7fc''\<rparr>, hyperdbs = [''0b77c7fc'']\<rparr>, [])"
  by (simp add: sign_up_def defaultSettings_def replicate_db_def persistSettings_def
        Object_prototype_properties_def)

section \<open>Properties of the channel\<close>

text \<open>
  C4. When the channel's authenticated decryption of a received ciphertext fails under
  the node's symmetric key, the receive operation emits the bad-message event as a
  value (nothing is thrown) and sends nothing on; at the browser node the \<open>message\<close>
  listener is not called, the whole state, the seen-set included, is as before, and
  the event carries no plaintext.
\<close>

theorem bad_message_is_contained:
  "dec secretKey c = None \<Longrightarrow>
     channel_receive (Some secretKey) dec live sender c = (ReceivedBadMessage, []) \<and>
     browser_receive js sha secretKey dec live st sender c = (st, None) \<and>
     ephemeralMessageHashes (fst (browser_receive js sha secretKey dec live st sender c)) =
       ephemeralMessageHashes st"
  by (simp add: channel_receive_def browser_receive_def on_received_bad_message_def)

theorem bad_message_is_contained_witness:
  "(\<lambda>k c. if c = k @ example_stringify example_request then Some example_request else None)
      ''key'' ''forged'' = None \<and>
   browser_receive example_stringify example_digest ''key''
     (\<lambda>k c. if c = k @ example_stringify example_request then Some example_request else None)
     [1, 2 :: nat] example_node 1 ''forged'' = (example_node, None) \<and>
   snd (browser_receive example_stringify example_digest ''key''
     (\<lambda>k c. if c = k @ example_stringify example_request then Some example_request else None)
     [1, 2 :: nat] example_node 1 (''key'' @ example_stringify example_request))
     = Some (CheckingSelfAuthorisation example_request)"
proof -
  let ?d = "\<lambda>k c. if c = k @ example_stringify example_request then Some example_request else None"
  have bad: "?d ''key'' ''forged'' = None"
    by (simp add: example_stringify_def example_request_def)
  from bad_message_is_contained
    [of ?d "''key''" "''forged''" "[1, 2 :: nat]" 1 example_stringify example_digest example_node, OF bad]
  have contained: "browser_receive example_stringify example_digest ''key'' ?d
     [1, 2 :: nat] example_node 1 ''forged'' = (example_node, None)"
    by simp
  have good: "snd (browser_receive example_stringify example_digest ''key'' ?d
     [1, 2 :: nat] example_node 1 (''key'' @ example_stringify example_request))
     = Some (CheckingSelfAuthorisation example_request)"
    by (simp add: browser_receive_def channel_receive_def on_message_def Let_def
          example_node_def example_request_def split: prod.splits)
  from bad contained good show ?thesis by blast
qed

text \<open>
  C2. The always-on node constructs its channel with no key. For every ciphertext
  frame it receives, the channel emits no \<open>message\<close> event (only the \<open>relay\<close> event the
  node logs), the node's state is unchanged (it has no seen-set to add to), and the
  frame goes out unchanged to every live session other than the one it came in on.
  The result does not depend on the decryption function (no decryption is attempted),
  and over any sequence of frames every frame is forwarded, a repeated frame
  included (no deduplication).
\<close>

theorem relay_only_forwards:
  "always_on_receive dec live st sender c =
     (st, RelayEvent c, map (\<lambda>s. (s, c)) (filter (\<lambda>s. s \<noteq> sender) live)) \<and>
   always_on_receive dec live st sender c = always_on_receive dec' live st sender c \<and>
   fst (always_on_run dec live st frames) = st \<and>
   fst (snd (always_on_run dec live st frames)) = map (\<lambda>f. RelayEvent (snd f)) frames \<and>
   MessageEvent m \<notin> set (fst (snd (always_on_run dec live st frames))) \<and>
   ReceivedBadMessage \<notin> set (fst (snd (always_on_run dec live st frames))) \<and>
   snd (snd (always_on_run dec live st frames)) =
     concat (map (\<lambda>f. map (\<lambda>s. (s, snd f)) (filter (\<lambda>s. s \<noteq> fst f) live)) frames)"
proof -
  have one: "always_on_receive dec live st x y =
     (st, RelayEvent y, map (\<lambda>s. (s, y)) (filter (\<lambda>s. s \<noteq> x) live))" for x y
    by (simp add: always_on_receive_def channel_receive_def)
  have other: "always_on_receive dec' live st sender c =
     (st, RelayEvent c, map (\<lambda>s. (s, c)) (filter (\<lambda>s. s \<noteq> sender) live))"
    by (simp add: always_on_receive_def channel_receive_def)
  have all: "always_on_run dec live st frames =
     (st, map (\<lambda>f. RelayEvent (snd f)) frames,
      concat (map (\<lambda>f. map (\<lambda>s. (s, snd f)) (filter (\<lambda>s. s \<noteq> fst f) live)) frames))"
    by (induction frames) (auto simp: one)
  show ?thesis
    unfolding all by (auto simp: one other)
qed

theorem relay_only_forwards_witness:
  "always_on_run (\<lambda>(k :: string) (c :: string). Some example_request) [1, 2, 3 :: nat]
     \<lparr>settings = defaultSettings, settingsFile = defaultSettings, hyperdbs = []\<rparr>
     [(1, ''frame''), (1, ''frame'')] =
     (\<lparr>settings = defaultSettings, settingsFile = defaultSettings, hyperdbs = []\<rparr>,
      [RelayEvent ''frame'', RelayEvent ''frame''],
      [(2, ''frame''), (3, ''frame''), (2, ''frame''), (3, ''frame'')])"
proof -
  let ?d = "\<lambda>(k :: string) (c :: string). Some example_request"
  let ?st = "\<lparr>settings = defaultSettings, settingsFile = defaultSettings, hyperdbs = []\<rparr>"
  let ?frames = "[(1 :: nat, ''frame''), (1, ''frame'')]"
  let ?r = "always_on_run ?d [1, 2, 3 :: nat] ?st ?frames"
  note inst = relay_only_forwards [of ?d "[1, 2, 3 :: nat]" ?st _ _ _ ?frames]
  have a: "fst ?r = ?st"
    using inst by blast
  have b: "fst (snd ?r) = map (\<lambda>f. RelayEvent (snd f)) ?frames"
    using inst by blast
  have c: "snd (snd ?r) =
     concat (map (\<lambda>f. map (\<lambda>s. (s, snd f)) (filter (\<lambda>s. s \<noteq> fst f) [1, 2, 3 :: nat])) ?frames)"
    using inst by blast
  have b': "map (\<lambda>f. RelayEvent (snd f)) ?frames = [RelayEvent ''frame'', RelayEvent ''frame'']"
    by simp
  have c': "concat (map (\<lambda>f. map (\<lambda>s. (s, snd f)) (filter (\<lambda>s. s \<noteq> fst f) [1, 2, 3 :: nat])) ?frames)
     = [(2, ''frame''), (3, ''frame''), (2, ''frame''), (3, ''frame'')]"
    by simp
  have "?r = (fst ?r, fst (snd ?r), snd (snd ?r))"
    by (rule prod_eqI) simp_all
  then show ?thesis
    unfolding a b c b' c' .
qed

section \<open>The encryption round trip\<close>

lemma length_buffer_write: "length (buffer_write buf bytes) = length buf"
  by (simp add: buffer_write_def)

lemma buffer_write_same_length: "length bytes = length buf \<Longrightarrow> buffer_write buf bytes = bytes"
  by (simp add: buffer_write_def)

lemma length_Buffer_alloc: "length (Buffer_alloc n) = n"
  by (simp add: Buffer_alloc_def)

lemma encrypt_decrypt_text:
  assumes ok: "secretbox_correct S"
    and key: "length (key_buffer secretKey) = 32"
    and plain_text: "message_text B message = Some t"
    and utf8: "utf8_decode B (utf8_encode B t) = t"
  shows "\<exists>b. encrypt S B random message secretKey = Inr b \<and>
             length (ciphertext b) = length (utf8_encode B t) + crypto_secretbox_MACBYTES S \<and>
             length (nonce b) = crypto_secretbox_NONCEBYTES S \<and>
             decrypt S B (ciphertext b) secretKey (nonce b) = Inr t"
proof -
  let ?msg = "utf8_encode B t"
  let ?n = "buffer_write (Buffer_alloc (crypto_secretbox_NONCEBYTES S)) random"
  let ?k = "key_buffer secretKey"
  have n: "length ?n = crypto_secretbox_NONCEBYTES S"
    by (simp add: length_buffer_write length_Buffer_alloc)
  have k: "length ?k = crypto_secretbox_KEYBYTES S"
    using ok key by (simp add: secretbox_correct_def)
  from ok n k obtain c where
    c: "crypto_secretbox_easy S ?msg ?n ?k = Inr c"
    and len: "length c = length ?msg + crypto_secretbox_MACBYTES S"
    and opened: "crypto_secretbox_open_easy S c ?n ?k = Inr (Some ?msg)"
    unfolding secretbox_correct_def by blast
  let ?b = "\<lparr>nonce = ?n, ciphertext = buffer_write (Buffer_alloc (length ?msg + crypto_secretbox_MACBYTES S)) c\<rparr>"
  have written: "buffer_write (Buffer_alloc (length ?msg + crypto_secretbox_MACBYTES S)) c = c"
    by (rule buffer_write_same_length) (simp add: len length_Buffer_alloc)
  have enc: "encrypt S B random message secretKey = Inr ?b"
    using plain_text c by (simp add: encrypt_def Let_def)
  have plain: "buffer_write (Buffer_alloc (length c - crypto_secretbox_MACBYTES S)) ?msg = ?msg"
    by (rule buffer_write_same_length) (simp add: len length_Buffer_alloc)
  have dec: "decrypt S B c secretKey ?n = Inr t"
    using n len opened plain utf8 by (simp add: decrypt_def Let_def)
  show ?thesis
    using enc written len n dec by simp
qed

lemma encrypt_lengths:
  assumes "encrypt S B random message secretKey = Inr b"
  shows "length (nonce b) = crypto_secretbox_NONCEBYTES S \<and>
         (\<exists>t. message_text B message = Some t \<and>
              length (ciphertext b) = length (utf8_encode B t) + crypto_secretbox_MACBYTES S)"
  using assms
  by (auto simp: encrypt_def Let_def length_buffer_write length_Buffer_alloc
           split: option.splits sum.splits)

text \<open>
  C9. Let the library's secretbox be correct (\<open>secretbox_correct\<close>) and the secret key,
  given as a buffer or as a hex string, be 32 bytes long. For a string message that
  UTF-8 encoding and decoding give back unchanged, \<open>encrypt\<close> succeeds and \<open>decrypt\<close>
  of its ciphertext with the same key and the nonce it returned gives the message;
  for a message that is not a string, the same round trip gives \<open>JSON.stringify\<close> of
  the message. Whenever \<open>encrypt\<close> returns, with any library and any key, the
  ciphertext is exactly the MAC length longer than the UTF-8 encoding of the message
  text and the nonce has exactly the nonce length.
\<close>

theorem encrypt_decrypt_round_trip:
  "(encrypt S B random message secretKey = Inr b \<longrightarrow>
      length (nonce b) = crypto_secretbox_NONCEBYTES S \<and>
      (\<exists>t. message_text B message = Some t \<and>
           length (ciphertext b) = length (utf8_encode B t) + crypto_secretbox_MACBYTES S)) \<and>
   (secretbox_correct S \<and> length (key_buffer secretKey) = 32 \<and>
    utf8_decode B (utf8_encode B s) = s \<longrightarrow>
      (\<exists>b. encrypt S B random (StringMessage s) secretKey = Inr b \<and>
           decrypt S B (ciphertext b) secretKey (nonce b) = Inr s)) \<and>
   (secretbox_correct S \<and> length (key_buffer secretKey) = 32 \<and>
    JSON_stringify B v = Some t \<and> utf8_decode B (utf8_encode B t) = t \<longrightarrow>
      (\<exists>b. encrypt S B random (OtherMessage v) secretKey = Inr b \<and>
           decrypt S B (ciphertext b) secretKey (nonce b) = Inr t))"
proof (intro conjI impI)
  assume "encrypt S B random message secretKey = Inr b"
  then show "length (nonce b) = crypto_secretbox_NONCEBYTES S"
    and "\<exists>t. message_text B message = Some t \<and>
           length (ciphertext b) = length (utf8_encode B t) + crypto_secretbox_MACBYTES S"
    using encrypt_lengths by blast+
next
  assume a: "secretbox_correct S \<and> length (key_buffer secretKey) = 32 \<and>
    utf8_decode B (utf8_encode B s) = s"
  have "message_text B (StringMessage s) = Some s"
    by (simp add: message_text_def)
  from encrypt_decrypt_text [OF _ _ this, of S secretKey random] a
  show "\<exists>b. encrypt S B random (StringMessage s) secretKey = Inr b \<and>
           decrypt S B (ciphertext b) secretKey (nonce b) = Inr s"
    by blast
next
  assume a: "secretbox_correct S \<and> length (key_buffer secretKey) = 32 \<and>
    JSON_stringify B v = Some t \<and> utf8_decode B (utf8_encode B t) = t"
  then have "message_text B (OtherMessage v) = Some t"
    by (simp add: message_text_def)
  from encrypt_decrypt_text [OF _ _ this, of S secretKey random] a
  show "\<exists>b. encrypt S B random (OtherMessage v) secretKey = Inr b \<and>
           decrypt S B (ciphertext b) secretKey (nonce b) = Inr t"
    by blast
qed

theorem encrypt_decrypt_round_trip_witness:
  "secretbox_correct toy_sodium \<and>
   length (key_buffer (KeyHex ''2b32b9c560b52392a1b59bdc218234a2ff66c6d3f460bb5004aac00f251e9222'')) = 32 \<and>
   (\<exists>b. encrypt toy_sodium toy_builtins [7, 7, 7]
          (StringMessage [0x48, 0x65, 0x6c, 0x6c, 0x6f])
          (KeyHex ''2b32b9c560b52392a1b59bdc218234a2ff66c6d3f460bb5004aac00f251e9222'') = Inr b \<and>
        length (ciphertext b) = 5 + 16 \<and>
        length (nonce b) = 24 \<and>
        decrypt toy_sodium toy_builtins (ciphertext b)
          (KeyHex ''2b32b9c560b52392a1b59bdc218234a2ff66c6d3f460bb5004aac00f251e9222'') (nonce b)
          = Inr [0x48, 0x65, 0x6c, 0x6c, 0x6f])"
proof -
  let ?key = "KeyHex ''2b32b9c560b52392a1b59bdc218234a2ff66c6d3f460bb5004aac00f251e9222''"
  let ?hello = "[0x48, 0x65, 0x6c, 0x6c, 0x6f] :: buffer"
  have ok: "secretbox_correct toy_sodium"
    by (simp add: secretbox_correct_def toy_sodium_def)
  have key: "length (key_buffer ?key) = 32"
    by (simp add: key_buffer_def hex_digit_def)
  have utf8: "utf8_decode toy_builtins (utf8_encode toy_builtins ?hello) = ?hello"
    by (simp add: toy_builtins_def)
  from encrypt_decrypt_round_trip [of toy_sodium toy_builtins "[7, 7, 7]" _ ?key _ ?hello] ok key utf8
  obtain b where enc: "encrypt toy_sodium toy_builtins [7, 7, 7] (StringMessage ?hello) ?key = Inr b"
    and dec: "decrypt toy_sodium toy_builtins (ciphertext b) ?key (nonce b) = Inr ?hello"
    by blast
  from encrypt_decrypt_round_trip
    [of toy_sodium toy_builtins "[7, 7, 7]" "StringMessage ?hello" ?key b] enc
  have "length (nonce b) = crypto_secretbox_NONCEBYTES toy_sodium \<and>
      (\<exists>t. message_text toy_builtins (StringMessage ?hello) = Some t \<and>
           length (ciphertext b) = length (utf8_encode toy_builtins t) + crypto_secretbox_MACBYTES toy_sodium)"
    by blast
  then have "length (nonce b) = 24" and "length (ciphertext b) = 5 + 16"
    by (auto simp: message_text_def toy_builtins_def toy_sodium_def)
  with enc dec ok key show ?thesis by blast
qed

section \<open>The JSON round trip\<close>

lemma reviver_not_serialised: "serialised_buffer v = None \<Longrightarrow> reviver coerce v = v"
  by (simp add: reviver_def)

lemma serialised_buffer_simps:
  "serialised_buffer JUndefined = None"
  "serialised_buffer JNull = None"
  "serialised_buffer (JBool b) = None"
  "serialised_buffer (JNumber n) = None"
  "serialised_buffer JNonFinite = None"
  "serialised_buffer (JString s) = None"
  "serialised_buffer (JDate d) = None"
  "serialised_buffer (JArray xs) = None"
  "serialised_buffer (JBuffer bs) = None"
  by (simp_all add: serialised_buffer_def)

lemma reviver_cases: "reviver coerce v = v \<or> (\<exists>bs. reviver coerce v = JBuffer bs)"
  by (simp add: reviver_def split: option.splits)

lemma Buffer_from_array_bytes:
  "Buffer_from_array coerce (map (\<lambda>b. JNumber (uint b)) bs) = bs"
  by (induction bs) (simp_all add: Buffer_from_array_def)

lemma parse_stringified_buffer:
  "JSON_parse_reviving (reviver coerce)
     (JObject [(''type'', JString ''Buffer''), (''data'', JArray (map (\<lambda>b. JNumber (uint b)) bs))])
   = JBuffer bs"
proof -
  have numbers: "map (JSON_parse_reviving (reviver coerce) \<circ> (\<lambda>b. JNumber (uint b))) bs
      = map (\<lambda>b. JNumber (uint b)) bs"
    by (induction bs) (simp_all add: reviver_not_serialised serialised_buffer_simps)
  have "JSON_parse_reviving (reviver coerce)
     (JObject [(''type'', JString ''Buffer''), (''data'', JArray (map (\<lambda>b. JNumber (uint b)) bs))]) =
      reviver coerce (JObject [(''type'', JString ''Buffer''), (''data'', JArray (map (\<lambda>b. JNumber (uint b)) bs))])"
    by (simp add: numbers reviver_not_serialised serialised_buffer_simps)
  also have "\<dots> = JBuffer (Buffer_from_array coerce (map (\<lambda>b. JNumber (uint b)) bs))"
    by (simp add: reviver_def serialised_buffer_def)
  finally show ?thesis
    by (simp add: Buffer_from_array_bytes)
qed

text \<open>
  Reading a text back turns no value into a string or an array that was not one
  before, so an object passes the reviver's test after its properties were read back
  exactly when it passes the test as written.
\<close>

lemma parse_string:
  assumes "JSON_parse_reviving (reviver coerce) t = JString s"
  shows "t = JString s"
proof (cases t)
  case (JObject kvs)
  then show ?thesis
    using assms reviver_cases [of coerce "JObject (map (map_prod id (JSON_parse_reviving (reviver coerce))) kvs)"]
    by auto
qed (use assms in \<open>simp_all add: reviver_not_serialised serialised_buffer_simps\<close>)

lemma parse_array:
  assumes "JSON_parse_reviving (reviver coerce) t = JArray ys"
  shows "\<exists>xs. t = JArray xs"
proof (cases t)
  case (JObject kvs)
  then show ?thesis
    using assms reviver_cases [of coerce "JObject (map (map_prod id (JSON_parse_reviving (reviver coerce))) kvs)"]
    by auto
qed (use assms in \<open>simp_all add: reviver_not_serialised serialised_buffer_simps\<close>)

lemma map_of_map_prod_id:
  "map_of (map (map_prod id f) ps) k = map_option f (map_of ps k)"
  by (induction ps) auto

lemma serialised_buffer_parsed_properties:
  assumes "serialised_buffer (JObject ps) = None"
  shows "serialised_buffer (JObject (map (map_prod id (JSON_parse_reviving (reviver coerce))) ps)) = None"
proof (rule ccontr)
  let ?f = "JSON_parse_reviving (reviver coerce)"
  assume "serialised_buffer (JObject (map (map_prod id ?f) ps)) \<noteq> None"
  then obtain ys where ty: "map_of (map (map_prod id ?f) ps) ''type'' = Some (JString ''Buffer'')"
    and da: "map_of (map (map_prod id ?f) ps) ''data'' = Some (JArray ys)"
    by (auto simp: serialised_buffer_def split: option.splits jsval.splits if_splits)
  from ty obtain tt where tt: "map_of ps ''type'' = Some tt" and ft: "?f tt = JString ''Buffer''"
    by (auto simp: map_of_map_prod_id)
  from da obtain td where td: "map_of ps ''data'' = Some td" and fd: "?f td = JArray ys"
    by (auto simp: map_of_map_prod_id)
  from ft have "tt = JString ''Buffer''" by (rule parse_string)
  moreover from fd obtain xs where "td = JArray xs" using parse_array by blast
  ultimately have "serialised_buffer (JObject ps) = Some xs"
    using tt td by (simp add: serialised_buffer_def)
  with assms show False by simp
qed

lemma at_buffer_written:
  "at v p = Some (JBuffer bs) \<Longrightarrow> JSON_stringify_tree v \<noteq> None"
  by (cases v; cases p) auto

lemma map_of_written_properties:
  "map_of kos k = Some (Some t) \<Longrightarrow> map_of (written_properties kos) k = Some t"
proof (induction kos)
  case Nil
  then show ?case by simp
next
  case (Cons kw kos)
  obtain k' w where kw: "kw = (k', w)" by (cases kw)
  have step: "written_properties (kw # kos) =
      (case w of None \<Rightarrow> written_properties kos | Some t' \<Rightarrow> (k', t') # written_properties kos)"
    using kw by (simp add: written_properties_def map_filter_simps split: option.splits)
  show ?case
  proof (cases "k' = k")
    case True
    then have "w = Some t" using Cons.prems kw by simp
    then show ?thesis using True step by simp
  next
    case False
    then have "map_of (written_properties kos) k = Some t"
      using Cons kw by simp
    then show ?thesis
      using False step by (cases w) simp_all
  qed
qed

lemma round_trip_buffer_at:
  "no_lookalike v \<Longrightarrow> JSON_stringify_tree v = Some str \<Longrightarrow> at v p = Some (JBuffer bs) \<Longrightarrow>
   at (JSON_parse_reviving (reviver coerce) str) p = Some (JBuffer bs)"
proof (induction v arbitrary: str p)
  case (JArray xs)
  let ?f = "JSON_parse_reviving (reviver coerce)"
  from JArray.prems(3) obtain i p' where p: "p = Index i # p'" and i: "i < length xs"
    and sub: "at (xs ! i) p' = Some (JBuffer bs)"
    by (cases p; cases "hd p") (auto split: if_splits)
  from at_buffer_written [OF sub] obtain ti where ti: "JSON_stringify_tree (xs ! i) = Some ti"
    by auto
  have mem: "xs ! i \<in> set xs" using i by simp
  have clean: "no_lookalike (xs ! i)"
    using JArray.prems(1) mem by (simp add: list_all_iff)
  have ih: "at (?f ti) p' = Some (JBuffer bs)"
    using JArray.IH [OF mem clean ti sub] .
  have str: "str = JArray (written_elements (map JSON_stringify_tree xs))"
    using JArray.prems(2) by simp
  have "?f str = JArray (map ?f (written_elements (map JSON_stringify_tree xs)))"
    unfolding str by (simp add: reviver_not_serialised serialised_buffer_simps)
  moreover have "map ?f (written_elements (map JSON_stringify_tree xs)) ! i = ?f ti"
    using i ti by (simp add: written_elements_def)
  ultimately show ?case
    using p i ih by (simp add: written_elements_def)
next
  case (JObject kvs)
  let ?f = "JSON_parse_reviving (reviver coerce)"
  let ?ps = "written_properties (map (map_prod id JSON_stringify_tree) kvs)"
  from JObject.prems(3) obtain k p' x where p: "p = Key k # p'" and x: "map_of kvs k = Some x"
    and sub: "at x p' = Some (JBuffer bs)"
    by (cases p; cases "hd p") (auto split: option.splits)
  from at_buffer_written [OF sub] obtain tx where tx: "JSON_stringify_tree x = Some tx"
    by auto
  have mem: "(k, x) \<in> set kvs" using x by (rule map_of_SomeD)
  have snds: "x \<in> Basic_BNFs.snds (k, x)" by simp
  have clean: "no_lookalike x"
    using JObject.prems(1) mem by (force simp: list_all_iff)
  have ih: "at (?f tx) p' = Some (JBuffer bs)"
    using JObject.IH [OF mem snds clean tx sub] .
  have str: "str = JObject ?ps"
    using JObject.prems(2) by simp
  have "serialised_buffer (JObject ?ps) = None"
    using JObject.prems(1) by simp
  then have "serialised_buffer (JObject (map (map_prod id ?f) ?ps)) = None"
    by (rule serialised_buffer_parsed_properties)
  then have parsed: "?f str = JObject (map (map_prod id ?f) ?ps)"
    unfolding str by (simp add: reviver_not_serialised)
  have "map_of (map (map_prod id JSON_stringify_tree) kvs) k = Some (Some tx)"
    using x tx by (simp add: map_of_map_prod_id)
  then have "map_of ?ps k = Some tx"
    by (rule map_of_written_properties)
  then have "map_of (map (map_prod id ?f) ?ps) k = Some (?f tx)"
    by (simp add: map_of_map_prod_id)
  then show ?case
    using p ih parsed by simp
next
  case (JBuffer b)
  from JBuffer.prems(3) have "p = []" and "b = bs"
    by (cases p; simp)+
  then show ?case
    using JBuffer.prems(2) parse_stringified_buffer [of coerce bs] by auto
qed (auto elim: at.elims)

lemma parse_no_serialised_buffer:
  "no_serialised_buffer t \<Longrightarrow> JSON_parse_reviving (reviver coerce) t = t"
proof (induction t)
  case (JArray xs)
  have "map (JSON_parse_reviving (reviver coerce)) xs = xs"
    using JArray by (intro map_idI) (auto simp: list_all_iff)
  then show ?case
    by (simp add: reviver_not_serialised serialised_buffer_simps)
next
  case (JObject kvs)
  have "map (map_prod id (JSON_parse_reviving (reviver coerce))) kvs = kvs"
  proof (intro map_idI)
    fix kv
    assume mem: "kv \<in> set kvs"
    obtain k x where kv: "kv = (k, x)" by (cases kv)
    have "no_serialised_buffer x"
      using JObject.prems mem kv by (force simp: list_all_iff)
    moreover have "x \<in> Basic_BNFs.snds kv"
      using kv by simp
    ultimately have "JSON_parse_reviving (reviver coerce) x = x"
      using JObject.IH mem by blast
    then show "map_prod id (JSON_parse_reviving (reviver coerce)) kv = kv"
      using kv by simp
  qed
  moreover have "serialised_buffer (JObject kvs) = None"
    using JObject.prems by simp
  ultimately show ?case
    by (simp add: reviver_not_serialised)
qed (simp_all add: reviver_not_serialised serialised_buffer_simps)

text \<open>
  C10 (amended). For every value in which no object other than a buffer is written
  with both a \<open>type\<close> property equal to \<open>'Buffer'\<close> and an array as its \<open>data\<close> property,
  \<open>jsonParseWithBufferSupport\<close> applied to \<open>JSON.stringify\<close> of the value reconstitutes
  every buffer of the value: at every place where the value holds a buffer, the result
  holds a buffer with the same bytes. On a value that does not have that shape (null,
  a value that is not an object, an object lacking the \<open>type\<close> or the array \<open>data\<close>) the
  reviver returns the value unchanged, so on a text without such objects the function
  is plain \<open>JSON.parse\<close>.
\<close>

theorem json_buffer_round_trip:
  "(no_lookalike v \<and> JSON_stringify_tree v = Some str \<and> at v p = Some (JBuffer bs) \<longrightarrow>
      at (jsonParseWithBufferSupport coerce str) p = Some (JBuffer bs)) \<and>
   (serialised_buffer t = None \<longrightarrow> reviver coerce t = t) \<and>
   (no_serialised_buffer t \<longrightarrow> jsonParseWithBufferSupport coerce t = t)"
  using round_trip_buffer_at [of v str p bs coerce]
  by (simp add: jsonParseWithBufferSupport_def reviver_not_serialised parse_no_serialised_buffer)

theorem json_buffer_round_trip_witness:
  "no_lookalike
     (JObject [(''buffer'', JBuffer [0x48, 0x69]), (''d'', JDate (Some ''1970-01-01T00:00:00.000Z'')),
               (''u'', JUndefined), (''n'', JArray [JNumber 1, JUndefined, JNonFinite])]) \<and>
   JSON_stringify_tree
     (JObject [(''buffer'', JBuffer [0x48, 0x69]), (''d'', JDate (Some ''1970-01-01T00:00:00.000Z'')),
               (''u'', JUndefined), (''n'', JArray [JNumber 1, JUndefined, JNonFinite])]) =
     Some (JObject [(''buffer'', JObject [(''type'', JString ''Buffer''), (''data'', JArray [JNumber 0x48, JNumber 0x69])]),
                    (''d'', JString ''1970-01-01T00:00:00.000Z''),
                    (''n'', JArray [JNumber 1, JNull, JNull])]) \<and>
   at (JObject [(''buffer'', JBuffer [0x48, 0x69]), (''d'', JDate (Some ''1970-01-01T00:00:00.000Z'')),
               (''u'', JUndefined), (''n'', JArray [JNumber 1, JUndefined, JNonFinite])])
      [Key ''buffer''] = Some (JBuffer [0x48, 0x69]) \<and>
   (\<forall>coerce. at (jsonParseWithBufferSupport coerce
      (JObject [(''buffer'', JObject [(''type'', JString ''Buffer''), (''data'', JArray [JNumber 0x48, JNumber 0x69])]),
                (''d'', JString ''1970-01-01T00:00:00.000Z''),
                (''n'', JArray [JNumber 1, JNull, JNull])]))
      [Key ''buffer''] = Some (JBuffer [0x48, 0x69]))"
proof -
  let ?v = "JObject [(''buffer'', JBuffer [0x48, 0x69]), (''d'', JDate (Some ''1970-01-01T00:00:00.000Z'')),
               (''u'', JUndefined), (''n'', JArray [JNumber 1, JUndefined, JNonFinite])]"
  let ?str = "JObject [(''buffer'', JObject [(''type'', JString ''Buffer''), (''data'', JArray [JNumber 0x48, JNumber 0x69])]),
                (''d'', JString ''1970-01-01T00:00:00.000Z''),
                (''n'', JArray [JNumber 1, JNull, JNull])]"
  have written: "JSON_stringify_tree ?v = Some ?str"
    by (simp add: written_properties_def written_elements_def map_filter_simps)
  have clean: "no_lookalike ?v"
    by (simp add: written_properties_def written_elements_def map_filter_simps serialised_buffer_def)
  have held: "at ?v [Key ''buffer''] = Some (JBuffer [0x48, 0x69])"
    by simp
  have "at (jsonParseWithBufferSupport coerce ?str) [Key ''buffer''] = Some (JBuffer [0x48, 0x69])"
    for coerce
    using json_buffer_round_trip [of ?v ?str "[Key ''buffer'']" "[0x48, 0x69]" coerce] clean written held
    by blast
  with clean written held show ?thesis by blast
qed

text \<open>
  C10 as first stated fails on an object that is not a buffer but passes the
  reviver's test: the whole object is replaced by a buffer built from its \<open>data\<close>, and
  a buffer it held elsewhere is lost.
\<close>

theorem json_buffer_round_trip_counterexample:
  "at (JObject [(''type'', JString ''Buffer''), (''data'', JArray [JNumber 1]), (''extra'', JBuffer [2])])
      [Key ''extra''] = Some (JBuffer [2]) \<and>
   JSON_stringify_tree
     (JObject [(''type'', JString ''Buffer''), (''data'', JArray [JNumber 1]), (''extra'', JBuffer [2])]) =
     Some (JObject [(''type'', JString ''Buffer''), (''data'', JArray [JNumber 1]),
                    (''extra'', JObject [(''type'', JString ''Buffer''), (''data'', JArray [JNumber 2])])]) \<and>
   (\<forall>coerce. jsonParseWithBufferSupport coerce
      (JObject [(''type'', JString ''Buffer''), (''data'', JArray [JNumber 1]),
                (''extra'', JObject [(''type'', JString ''Buffer''), (''data'', JArray [JNumber 2])])])
     = JBuffer [1]) \<and>
   at (JBuffer [1]) [Key ''extra''] = None"
  by (simp add: jsonParseWithBufferSupport_def reviver_def serialised_buffer_def Buffer_from_array_def
        written_properties_def written_elements_def map_filter_simps)

section \<open>The hash chain of a log\<close>

text \<open>
  The invariant of a log: its entries are linked, and so the sequence of the last
  entry is the number of entries before it.
\<close>

lemma links_snoc:
  "links hash prev (es @ [e]) \<longleftrightarrow>
     links hash prev es \<and>
     (case (if es = [] then prev else Some (last es)) of
        None \<Rightarrow> sequence e = 0 \<and> previousHash e = None
      | Some p \<Rightarrow> sequence e = sequence p + 1 \<and> previousHash e = Some (hash p))"
  by (induction es arbitrary: prev) auto

lemma links_hash_chain:
  "links hash None es \<Longrightarrow> hash_chain hash es"
proof (induction es rule: rev_induct)
  case Nil
  then show ?case by (simp add: hash_chain_def)
next
  case (snoc e es)
  from snoc.prems have l: "links hash None es"
    and step: "(case (if es = [] then None else Some (last es)) of
        None \<Rightarrow> sequence e = 0 \<and> previousHash e = None
      | Some p \<Rightarrow> sequence e = sequence p + 1 \<and> previousHash e = Some (hash p))"
    by (simp_all add: links_snoc)
  from snoc.IH [OF l] have chain: "hash_chain hash es" .
  show ?case
    unfolding hash_chain_def
  proof (intro allI impI)
    fix i
    assume i: "i < length (es @ [e])"
    show "sequence ((es @ [e]) ! i) = i \<and>
          previousHash ((es @ [e]) ! i) = (if i = 0 then None else Some (hash ((es @ [e]) ! (i - 1))))"
    proof (cases "i < length es")
      case True
      then show ?thesis
        using chain by (auto simp: hash_chain_def nth_append)
    next
      case False
      then have ie: "i = length es" using i by simp
      show ?thesis
      proof (cases "es = []")
        case True
        then show ?thesis using step ie by simp
      next
        case False
        then have "sequence (last es) = length es - 1"
          using chain by (simp add: hash_chain_def last_conv_nth)
        then show ?thesis
          using step ie False by (simp add: nth_append last_conv_nth)
      qed
    qed
  qed
qed

lemma apply_log_op_links:
  assumes "links hash None (entries log)"
  shows "links hash None (entries (apply_log_op hash sign check log x))"
proof (cases x)
  case (Append p)
  show ?thesis
  proof (cases "writeKey log")
    case None
    then show ?thesis using assms Append by (simp add: apply_log_op_def append_def)
  next
    case (Some k)
    then show ?thesis
      using assms Append
      by (auto simp: apply_log_op_def append_def Let_def links_snoc tail_def)
  qed
next
  case (Receive e)
  then show ?thesis
    using assms
    by (auto simp: apply_log_op_def receive_entry_def verify_def links_snoc tail_def
             split: option.splits if_splits)
qed

lemma apply_log_ops_links:
  "links hash None (entries log) \<Longrightarrow>
   links hash None (entries (apply_log_ops hash sign check log xs))"
  unfolding apply_log_ops_def
  by (induction xs arbitrary: log) (auto intro: apply_log_op_links)

text \<open>
  Two linked lists of entries whose last entries have the same hash are the same
  list, when the hash has no collision among their entries.
\<close>

lemma links_determined_by_head:
  assumes "links hash None xs" and "links hash None ys"
    and "inj_on hash (set xs \<union> set ys)"
    and "head_hash hash xs = head_hash hash ys"
  shows "xs = ys"
  using assms
proof (induction xs arbitrary: ys rule: rev_induct)
  case Nil
  then show ?case by (cases ys) (simp_all add: head_hash_def)
next
  case (snoc x xs)
  from snoc.prems(4) have "ys \<noteq> []"
    by (auto simp: head_hash_def)
  then obtain y ys' where ys: "ys = ys' @ [y]"
    by (metis rev_exhaust)
  have "hash x = hash y"
    using snoc.prems(4) ys by (simp add: head_hash_def)
  moreover have "x \<in> set (xs @ [x]) \<union> set ys" and "y \<in> set (xs @ [x]) \<union> set ys"
    using ys by simp_all
  ultimately have xy: "x = y"
    using snoc.prems(3) by (rule inj_onD [rotated])
  have lx: "links hash None xs" and ly: "links hash None ys'"
    using snoc.prems(1,2) ys by (simp_all add: links_snoc)
  have inj: "inj_on hash (set xs \<union> set ys')"
    using snoc.prems(3) ys by (auto intro: inj_on_subset)
  have px: "previousHash x = head_hash hash xs"
    using snoc.prems(1) by (auto simp: links_snoc head_hash_def split: if_splits)
  have py: "previousHash y = head_hash hash ys'"
    using snoc.prems(2) ys by (auto simp: links_snoc head_hash_def split: if_splits)
  have "head_hash hash xs = head_hash hash ys'"
    using px py xy by simp
  from snoc.IH [OF lx ly inj this] xy ys show ?case by simp
qed

text \<open>
  C8. A log that starts empty and grows by local appends and by received entries that
  were verified before acceptance has, at every position \<open>i\<close>, an entry with sequence
  \<open>i\<close> (so the sequence starts at 0 and goes up by exactly 1) whose \<open>previousHash\<close> is
  the hash of the entry at \<open>i - 1\<close>, null at position 0; an append to such a log
  produces the entry with the next sequence and the hash of the tail. Tampering shows
  as a hash mismatch: if the hash has no collision among the entries concerned, a list
  of entries that is linked and ends in the same hash as the log is the log itself, so
  a truncated or reordered copy either breaks a link or ends in a different hash.
\<close>

theorem log_is_hash_chain:
  "hash_chain hash (entries (apply_log_ops hash sign check \<lparr>entries = [], writeKey = wk\<rparr> xs)) \<and>
   (links hash None (entries log) \<and> append hash sign log p = Inr (log', e) \<longrightarrow>
      entries log' = entries log @ [e] \<and> sequence e = length (entries log) \<and>
      previousHash e = head_hash hash (entries log) \<and> hash_chain hash (entries log')) \<and>
   (links hash None copy \<and>
    inj_on hash (set copy \<union> set (entries (apply_log_ops hash sign check \<lparr>entries = [], writeKey = wk\<rparr> xs))) \<and>
    head_hash hash copy =
      head_hash hash (entries (apply_log_ops hash sign check \<lparr>entries = [], writeKey = wk\<rparr> xs)) \<longrightarrow>
      copy = entries (apply_log_ops hash sign check \<lparr>entries = [], writeKey = wk\<rparr> xs))"
proof (intro conjI impI)
  let ?log = "apply_log_ops hash sign check \<lparr>entries = [], writeKey = wk\<rparr> xs"
  have linked: "links hash None (entries ?log)"
    by (rule apply_log_ops_links) simp
  then show "hash_chain hash (entries ?log)"
    by (rule links_hash_chain)
  show "copy = entries ?log"
    if "links hash None copy \<and> inj_on hash (set copy \<union> set (entries ?log)) \<and>
        head_hash hash copy = head_hash hash (entries ?log)"
    using that linked by (blast intro: links_determined_by_head)
next
  assume a: "links hash None (entries log) \<and> append hash sign log p = Inr (log', e)"
  then have l: "links hash None (entries log)" and ap: "append hash sign log p = Inr (log', e)"
    by simp_all
  from ap show grown: "entries log' = entries log @ [e]"
    by (auto simp: append_def Let_def split: option.splits)
  from ap have prev: "previousHash e = head_hash hash (entries log)"
    by (auto simp: append_def Let_def tail_def head_hash_def split: option.splits)
  then show "previousHash e = head_hash hash (entries log)" .
  from ap have seq: "sequence e = (case tail log of None \<Rightarrow> 0 | Some t \<Rightarrow> sequence t + 1)"
    by (auto simp: append_def Let_def split: option.splits)
  have "links hash None (entries log @ [e])"
    using l seq prev by (auto simp: links_snoc tail_def head_hash_def)
  then have chain: "hash_chain hash (entries log @ [e])"
    by (rule links_hash_chain)
  then show "hash_chain hash (entries log')"
    using grown by simp
  have "length (entries log) < length (entries log @ [e])"
    by simp
  with chain have "sequence ((entries log @ [e]) ! length (entries log)) = length (entries log)"
    unfolding hash_chain_def by blast
  then show "sequence e = length (entries log)"
    by simp
qed

theorem log_is_hash_chain_witness:
  "entries (apply_log_ops sequence (\<lambda>k n p h. k + n) (\<lambda>e. True) \<lparr>entries = [], writeKey = Some (5 :: nat)\<rparr>
      [Append [1], Append [2]]) =
     [\<lparr>sequence = 0, payload = [1], signature = 5, previousHash = None\<rparr>,
      \<lparr>sequence = 1, payload = [2], signature = 6, previousHash = Some 0\<rparr>] \<and>
   hash_chain sequence
     [\<lparr>sequence = 0, payload = [1], signature = 5 :: nat, previousHash = None\<rparr>,
      \<lparr>sequence = 1, payload = [2], signature = 6, previousHash = Some 0\<rparr>] \<and>
   \<not> links sequence None
     [\<lparr>sequence = 1, payload = [2], signature = 6 :: nat, previousHash = Some 0\<rparr>,
      \<lparr>sequence = 0, payload = [1], signature = 5, previousHash = None\<rparr>] \<and>
   head_hash sequence [\<lparr>sequence = 0, payload = [1], signature = 5 :: nat, previousHash = None\<rparr>] \<noteq>
   head_hash sequence
     [\<lparr>sequence = 0, payload = [1], signature = 5 :: nat, previousHash = None\<rparr>,
      \<lparr>sequence = 1, payload = [2], signature = 6, previousHash = Some 0\<rparr>]"
proof -
  let ?e0 = "\<lparr>sequence = 0, payload = [1], signature = 5 :: nat, previousHash = None :: nat option\<rparr>"
  let ?e1 = "\<lparr>sequence = 1, payload = [2], signature = 6 :: nat, previousHash = Some (0 :: nat)\<rparr>"
  let ?log = "apply_log_ops sequence (\<lambda>k n p h. k + n) (\<lambda>e. True)
      \<lparr>entries = [], writeKey = Some (5 :: nat)\<rparr> [Append [1], Append [2]]"
  have built: "entries ?log = [?e0, ?e1]"
    by (simp add: apply_log_ops_def apply_log_op_def append_def tail_def Let_def)
  have "hash_chain sequence (entries ?log)"
    using log_is_hash_chain [of sequence "\<lambda>k n p h. k + n" "\<lambda>e. True" "Some (5 :: nat)" "[Append [1], Append [2]]"]
    by blast
  then have chain: "hash_chain sequence [?e0, ?e1]"
    unfolding built .
  have reordered: "\<not> links sequence None [?e1, ?e0]"
    by simp
  have truncated: "head_hash sequence [?e0] \<noteq> head_hash sequence [?e0, ?e1]"
    by (simp add: head_hash_def)
  from built chain reordered truncated show ?thesis by blast
qed

end
